theory Spec2Isabelle
  imports Main "HOL-Library.Word"
begin

section \<open>Data model of the conversion router (src/main.js, TypeScript part)\<close>

text \<open>
  JavaScript objects are compared by reference (\<^verbatim>\<open>===\<close>, \<^verbatim>\<open>includes\<close>).
  Every object whose identity the router compares carries its identity as a number:
  \<open>oid\<close> of a format object, \<open>hid\<close> of a handler object, \<open>nid\<close> of a path node.
  Two records are the same object when they are equal, identity included; the identity
  keeps apart two objects with the same content.
  A format object without \<^verbatim>\<open>mime\<close> (the property is undefined) has the mime
  \<open>None\<close>; the empty string is a defined but falsy value. A mime that is null is not
  told apart from one that is undefined.
\<close>

record FileFormat =
  oid :: nat
  name :: string
  format :: string
  extension :: string
  mime :: "string option"
  from_flag :: bool
  to_flag :: bool
  internal :: "string option"

record FileData =
  file_name :: string
  bytes :: "8 word list"

text \<open>
  The immutable part of a handler object. Its mutable fields (\<^verbatim>\<open>ready\<close>,
  \<^verbatim>\<open>supportedFormats\<close>) and its methods belong to the handler implementations, which
  the router only calls; they are read from the environment below.
\<close>

record FormatHandler =
  hid :: nat
  handler_name :: string
  supportAnyInput :: bool

record ConvertPathNode =
  nid :: nat
  handler :: FormatHandler
  node_format :: FileFormat

record cache_entry =
  files :: "FileData list"
  node :: ConvertPathNode

record StoredNode =
  handlerName :: string
  formatMime :: "string option"
  formatFormat :: string

text \<open>
  Calls that leave the router, in the order they happen: \<^verbatim>\<open>handler.init()\<close> with whether
  it resolved, \<^verbatim>\<open>handler.doConvert(files, inputFormat, outputFormat)\<close>, the
  \<^verbatim>\<open>onPathAttempt\<close> notification that precedes every attempt of the search, and
  \<^verbatim>\<open>downloadFile(bytes, name, mime)\<close>.
\<close>

datatype event =
    InitCall FormatHandler bool
  | ConvertCall FormatHandler "FileData list" "FileFormat option" FileFormat
  | PathAttempt "ConvertPathNode list"
  | Download "8 word list" string "string option"

text \<open>
  The handlers and the clock (milliseconds, as \<^verbatim>\<open>Date.now()\<close> gives them) are outside the router. \<open>'w\<close> is the state of that outside
  world; a call returns its outcome and the next world. \<open>init\<close> returns whether the
  promise resolved; \<open>doConvert\<close> returns \<open>None\<close> when it throws.
\<close>

record 'w environment =
  handlers :: "FormatHandler list"
  ready :: "'w \<Rightarrow> FormatHandler \<Rightarrow> bool"
  supportedFormats :: "'w \<Rightarrow> FormatHandler \<Rightarrow> FileFormat list option"
  init :: "'w \<Rightarrow> FormatHandler \<Rightarrow> bool \<times> 'w"
  doConvert :: "'w \<Rightarrow> FormatHandler \<Rightarrow> FileData list \<Rightarrow> FileFormat option \<Rightarrow> FileFormat
                 \<Rightarrow> FileData list option \<times> 'w"
  date_now :: "'w \<Rightarrow> int \<times> 'w"

text \<open>
  The module-level variables of main.js: \<^verbatim>\<open>window.supportedFormatCache\<close> (keyed by handler
  name), \<^verbatim>\<open>convertPathCache\<close>, \<^verbatim>\<open>allOptions\<close>, \<^verbatim>\<open>conversionsFromAnyInput\<close>,
  \<^verbatim>\<open>simpleMode\<close>, the path store kept in localStorage, the next unused node identity
  and the log of outside calls.
\<close>

record 'w router =
  world :: 'w
  supportedFormatCache :: "string \<Rightarrow> FileFormat list option"
  convertPathCache :: "cache_entry list"
  allOptions :: "ConvertPathNode list"
  conversionsFromAnyInput :: "ConvertPathNode list"
  simpleMode :: bool
  pathStore :: "string \<Rightarrow> StoredNode list option"
  next_nid :: nat
  events :: "event list"

datatype search_result =
    Found "FileData list" "ConvertPathNode list"
  | TIMEOUT_RESULT
  | NoRoute
  | Threw

definition mime_set :: "FileFormat \<Rightarrow> bool" where
  "mime_set f = (case mime f of None \<Rightarrow> False | Some s \<Rightarrow> s \<noteq> [])"

section \<open>attemptConvertPath\<close>

definition lookupInput :: "FileFormat list \<Rightarrow> FileFormat \<Rightarrow> FileFormat option" where
  "lookupInput fs prev = find (\<lambda>c. mime c = mime prev \<and> from_flag c) fs"

text \<open>
  Lines 819-828: the format list the hop will search. \<open>None\<close> is the early
  \<^verbatim>\<open>return null\<close> of a rejected \<^verbatim>\<open>init()\<close>; \<open>Some None\<close> is a list that is
  still undefined.
\<close>

definition ready_formats ::
  "'w environment \<Rightarrow> FormatHandler \<Rightarrow> 'w router \<Rightarrow> FileFormat list option option \<times> 'w router" where
  "ready_formats E h st =
     (if ready E (world st) h then (Some (supportedFormatCache st (handler_name h)), st)
      else (case init E (world st) h of
              (ok, w') \<Rightarrow>
                (let st1 = st\<lparr>world := w', events := events st @ [InitCall h ok]\<rparr> in
                 if \<not> ok then (None, st1)
                 else (case supportedFormats E w' h of
                         None \<Rightarrow> (Some (supportedFormatCache st (handler_name h)), st1)
                       | Some fs \<Rightarrow>
                           (Some (Some fs),
                            st1\<lparr>supportedFormatCache :=
                                  (supportedFormatCache st1)(handler_name h := Some fs)\<rparr>)))))"

text \<open>One pass of the loop body of attemptConvertPath, for hop \<open>i\<close> (lines 817-838).\<close>

definition attempt_hop ::
  "'w environment \<Rightarrow> ConvertPathNode list \<Rightarrow> nat \<Rightarrow> FileData list \<Rightarrow> 'w router
     \<Rightarrow> FileData list option \<times> 'w router" where
  "attempt_hop E path i fls st =
     (let h = handler (path ! Suc i) in
      case ready_formats E h st of
        (None, st1) \<Rightarrow> (None, st1)
      | (Some None, st1) \<Rightarrow> (None, st1)
      | (Some (Some fs), st1) \<Rightarrow>
          (let inputFormat = lookupInput fs (node_format (path ! i));
               outputFormat = node_format (path ! Suc i)
           in case doConvert E (world st1) h fls inputFormat outputFormat of
                (res, w2) \<Rightarrow>
                  (let st2 = st1\<lparr>world := w2,
                                 events := events st1 @ [ConvertCall h fls inputFormat outputFormat]\<rparr>
                   in case res of
                        None \<Rightarrow> (None, st2)
                      | Some out \<Rightarrow>
                          if list_ex (\<lambda>c. bytes c = []) out then (None, st2)
                          else (Some out,
                                st2\<lparr>convertPathCache :=
                                      convertPathCache st2 @ [\<lparr>files = out, node = path ! Suc i\<rparr>]\<rparr>))))"

function attempt_from ::
  "'w environment \<Rightarrow> ConvertPathNode list \<Rightarrow> nat \<Rightarrow> FileData list \<Rightarrow> 'w router
     \<Rightarrow> (FileData list \<times> ConvertPathNode list) option \<times> 'w router" where
  "attempt_from E path i fls st =
     (if i + 1 < length path then
        (case attempt_hop E path i fls st of
           (None, st') \<Rightarrow> (None, st')
         | (Some out, st') \<Rightarrow> attempt_from E path (Suc i) out st')
      else (Some (fls, path), st))"
  by pat_completeness auto
termination
  by (relation "measure (\<lambda>(E, path, i, fls, st). length path - i)") auto

declare attempt_from.simps [simp del]

text \<open>
  Lines 808-812: the attempt resumes after the cached hops, on the files of the last
  cache entry. It does not compare the cache with the path.
\<close>

definition attemptConvertPath ::
  "'w environment \<Rightarrow> FileData list \<Rightarrow> ConvertPathNode list \<Rightarrow> 'w router
     \<Rightarrow> (FileData list \<times> ConvertPathNode list) option \<times> 'w router" where
  "attemptConvertPath E fls path st =
     (case convertPathCache st of
        [] \<Rightarrow> attempt_from E path 0 fls st
      | _ # _ \<Rightarrow> attempt_from E path (length (convertPathCache st))
                   (files (last (convertPathCache st))) st)"

section \<open>buildConvertPath\<close>

text \<open>
  Lines 874-879. Entry \<open>i\<close> of the cache is compared with node \<open>i\<close> of the path; on the
  first difference the cache is cut to \<open>i - 1\<close> entries. The cut never lengthens the
  array: position \<open>i\<close> is only reached when the entries before it exist.
\<close>

function realign :: "ConvertPathNode list \<Rightarrow> nat \<Rightarrow> cache_entry list \<Rightarrow> cache_entry list" where
  "realign path i cache =
     (if i < length path then
        (if i < length cache \<and> path ! i = node (cache ! i)
         then realign path (Suc i) cache
         else take (i - 1) cache)
      else cache)"
  by pat_completeness auto
termination
  by (relation "measure (\<lambda>(path, i, cache). length path - i)") auto

declare realign.simps [simp del]

definition declares_from :: "'w router \<Rightarrow> FormatHandler \<Rightarrow> string option \<Rightarrow> bool" where
  "declares_from st h m =
     (case supportedFormatCache st (handler_name h) of
        None \<Rightarrow> False
      | Some fs \<Rightarrow> list_ex (\<lambda>f. mime f = m \<and> from_flag f) fs)"

text \<open>
  Lines 881-887. For an empty path \<^verbatim>\<open>previous\<close> is undefined and the first format the
  filter inspects raises a TypeError (\<open>None\<close>).
\<close>

definition validHandlers ::
  "'w environment \<Rightarrow> 'w router \<Rightarrow> ConvertPathNode list \<Rightarrow> FormatHandler list option" where
  "validHandlers E st path =
     (if path = [] then
        (if list_ex (\<lambda>h. case supportedFormatCache st (handler_name h) of
                            Some (f # fs) \<Rightarrow> True | _ \<Rightarrow> False) (handlers E)
         then None else Some [])
      else Some (filter (\<lambda>h. declares_from st h (mime (node_format (last path)))) (handlers E)))"

definition includes_handler :: "FormatHandler list \<Rightarrow> FormatHandler \<Rightarrow> bool" where
  "includes_handler hs h = (h \<in> set hs)"

text \<open>Lines 889-909: the nodes that may close the chain at the target.\<close>

definition target_candidates ::
  "'w router \<Rightarrow> FormatHandler list \<Rightarrow> ConvertPathNode \<Rightarrow> ConvertPathNode list" where
  "target_candidates st valid target =
     (if simpleMode st then
        filter (\<lambda>opt. includes_handler valid (handler opt) \<and>
                      mime (node_format opt) = mime (node_format target) \<and>
                      to_flag (node_format opt)) (allOptions st)
      else if includes_handler valid (handler target) then [target] else [])"

definition anyConversions :: "'w router \<Rightarrow> ConvertPathNode \<Rightarrow> ConvertPathNode list" where
  "anyConversions st target =
     filter (\<lambda>c. mime (node_format c) = mime (node_format target)) (conversionsFromAnyInput st)"

text \<open>
  The candidate loops (lines 894-901, 903-908, 913-918): notify, attempt, return the
  first success. \<^verbatim>\<open>bestPartialPath\<close> is assigned in the first loop and never read, so
  it is left out.
\<close>

fun try_candidates ::
  "'w environment \<Rightarrow> FileData list \<Rightarrow> ConvertPathNode list \<Rightarrow> ConvertPathNode list \<Rightarrow> 'w router
     \<Rightarrow> (FileData list \<times> ConvertPathNode list) option \<times> 'w router" where
  "try_candidates E fls path [] st = (None, st)"
| "try_candidates E fls path (c # cs) st =
     (case attemptConvertPath E fls (path @ [c])
             (st\<lparr>events := events st @ [PathAttempt (path @ [c])]\<rparr>) of
        (Some r, st') \<Rightarrow> (Some r, st')
      | (None, st') \<Rightarrow> try_candidates E fls path cs st')"

text \<open>Lines 922-930: the (handler, format) pairs that extend the path, in push order.\<close>

definition expansions ::
  "'w router \<Rightarrow> FormatHandler list \<Rightarrow> ConvertPathNode list \<Rightarrow> (FormatHandler \<times> FileFormat) list" where
  "expansions st valid path =
     concat (map (\<lambda>h. case supportedFormatCache st (handler_name h) of
                        None \<Rightarrow> []
                      | Some fs \<Rightarrow>
                          map (Pair h)
                            (filter (\<lambda>f. to_flag f \<and> mime_set f \<and>
                                         \<not> list_ex (\<lambda>c. node_format c = f) path) fs))
                 valid)"

text \<open>Every pushed path ends in a new node object: its identity is the next unused one.\<close>

definition push_all ::
  "nat \<Rightarrow> ConvertPathNode list \<Rightarrow> (FormatHandler \<times> FileFormat) list \<Rightarrow> ConvertPathNode list list" where
  "push_all n path hfs =
     map (\<lambda>(k, (h, f)). path @ [\<lparr>nid = k, handler = h, node_format = f\<rparr>]) (enumerate n hfs)"

text \<open>Lines 860-868. A deadline that is undefined or 0 is falsy and the clock is not read.\<close>

definition deadline_exceeded :: "'w environment \<Rightarrow> int option \<Rightarrow> 'w router \<Rightarrow> bool \<times> 'w router" where
  "deadline_exceeded E deadlineMs st =
     (case deadlineMs of
        None \<Rightarrow> (False, st)
      | Some d \<Rightarrow>
          if d = 0 then (False, st)
          else (case date_now E (world st) of (t, w') \<Rightarrow> (d < t, st\<lparr>world := w'\<rparr>)))"

definition partial_result :: "'w router \<Rightarrow> search_result" where
  "partial_result st =
     (case convertPathCache st of
        [] \<Rightarrow> TIMEOUT_RESULT
      | _ # _ \<Rightarrow> Found (files (last (convertPathCache st))) (map node (convertPathCache st)))"

text \<open>
  Lines 870-930 for one dequeued path: the result if the loop returns, the queue, the
  flag \<^verbatim>\<open>isNestedConversion\<close> and the router afterwards.
\<close>

definition process_path ::
  "'w environment \<Rightarrow> FileData list \<Rightarrow> ConvertPathNode \<Rightarrow> ConvertPathNode list
     \<Rightarrow> ConvertPathNode list list \<Rightarrow> bool \<Rightarrow> 'w router
     \<Rightarrow> search_result option \<times> ConvertPathNode list list \<times> bool \<times> 'w router" where
  "process_path E fls target path queue nested st =
     (if 5 < length path then (None, queue, nested, st)
      else
        (let st1 = st\<lparr>convertPathCache := realign path 1 (convertPathCache st)\<rparr> in
         case validHandlers E st1 path of
           None \<Rightarrow> (Some Threw, queue, nested, st1)
         | Some valid \<Rightarrow>
             (case try_candidates E fls path (target_candidates st1 valid target) st1 of
                (Some (out, p), st2) \<Rightarrow> (Some (Found out p), queue, nested, st2)
              | (None, st2) \<Rightarrow>
                  (case (if nested then (None, st2)
                         else try_candidates E fls path (anyConversions st2 target) st2) of
                     (Some (out, p), st3) \<Rightarrow> (Some (Found out p), queue, nested, st3)
                   | (None, st3) \<Rightarrow>
                       (let hfs = expansions st3 valid path in
                        (None, queue @ push_all (next_nid st3) path hfs, True,
                         st3\<lparr>next_nid := next_nid st3 + length hfs\<rparr>))))))"

text \<open>One iteration of the while loop (lines 858-931), for a non-empty queue.\<close>

definition bfs_iteration ::
  "'w environment \<Rightarrow> FileData list \<Rightarrow> ConvertPathNode \<Rightarrow> int option
     \<Rightarrow> ConvertPathNode list list \<Rightarrow> bool \<Rightarrow> 'w router
     \<Rightarrow> search_result option \<times> ConvertPathNode list list \<times> bool \<times> 'w router" where
  "bfs_iteration E fls target deadlineMs queue nested st =
     (case deadline_exceeded E deadlineMs st of
        (True, st1) \<Rightarrow> (Some (partial_result st1), queue, nested, st1)
      | (False, st1) \<Rightarrow> process_path E fls target (hd queue) (tl queue) nested st1)"

text \<open>
  The while loop. The first argument bounds the number of iterations the model runs;
  \<open>None\<close> as result means the bound was reached before the loop returned.
\<close>

fun bfs_loop ::
  "nat \<Rightarrow> 'w environment \<Rightarrow> FileData list \<Rightarrow> ConvertPathNode \<Rightarrow> int option
     \<Rightarrow> ConvertPathNode list list \<Rightarrow> bool \<Rightarrow> 'w router \<Rightarrow> search_result option \<times> 'w router" where
  "bfs_loop n E fls target deadlineMs [] nested st = (Some NoRoute, st)"
| "bfs_loop 0 E fls target deadlineMs (p # ps) nested st = (None, st)"
| "bfs_loop (Suc n) E fls target deadlineMs (p # ps) nested st =
     (case bfs_iteration E fls target deadlineMs (p # ps) nested st of
        (Some r, queue', nested', st') \<Rightarrow> (Some r, st')
      | (None, queue', nested', st') \<Rightarrow> bfs_loop n E fls target deadlineMs queue' nested' st')"

definition buildConvertPath ::
  "nat \<Rightarrow> 'w environment \<Rightarrow> FileData list \<Rightarrow> ConvertPathNode \<Rightarrow> ConvertPathNode list list
     \<Rightarrow> int option \<Rightarrow> 'w router \<Rightarrow> search_result option \<times> 'w router" where
  "buildConvertPath n E fls target queue deadlineMs st =
     bfs_loop n E fls target deadlineMs queue False (st\<lparr>convertPathCache := []\<rparr>)"

section \<open>buildOptionList\<close>

text \<open>Lines 556-565: the options one handler contributes, each a new object.\<close>

definition handler_options :: "'w router \<Rightarrow> FormatHandler \<Rightarrow> FileFormat list" where
  "handler_options st h =
     (case supportedFormatCache st (handler_name h) of
        None \<Rightarrow> []
      | Some fs \<Rightarrow> filter mime_set fs)"

definition push_options :: "FormatHandler \<Rightarrow> FileFormat list \<Rightarrow> 'w router \<Rightarrow> 'w router" where
  "push_options h fs st =
     st\<lparr>allOptions := allOptions st @
            map (\<lambda>(k, f). \<lparr>nid = k, handler = h, node_format = f\<rparr>) (enumerate (next_nid st) fs),
        next_nid := next_nid st + length fs\<rparr>"

text \<open>
  buildOptionList is an async function. It runs without interruption up to
  \<^verbatim>\<open>await handler.init()\<close> (line 548); there it is suspended, and other event handlers,
  other runs of buildOptionList among them, run before it goes on. A suspended run is
  the handler whose init it awaits and the handlers it has still to visit.
\<close>

record build_run =
  awaited :: FormatHandler
  todo :: "FormatHandler list"

text \<open>
  The loop (lines 544-620) from a given handler on, as far as it runs without
  interruption: a handler that is in the format cache contributes its options; at the
  first handler that is not, the run calls its init and is suspended.
\<close>

fun build_from :: "FormatHandler list \<Rightarrow> 'w router \<Rightarrow> build_run option \<times> 'w router" where
  "build_from [] st = (None, st)"
| "build_from (h # hs) st =
     (case supportedFormatCache st (handler_name h) of
        None \<Rightarrow> (Some \<lparr>awaited = h, todo = hs\<rparr>, st)
      | Some fs \<Rightarrow> build_from hs (push_options h (handler_options st h) st))"

text \<open>
  The init a run awaits has settled and the run goes on (lines 548-565, then the loop
  again): after a rejection with the next handler; otherwise the format list of the
  handler, when it has one, is cached, and the handler contributes the options of its
  cache entry, none when there is no entry. The outcome of the init and what it did to
  the world are taken when the run resumes, and the call is logged then.
\<close>

definition build_resume ::
  "'w environment \<Rightarrow> build_run \<Rightarrow> 'w router \<Rightarrow> build_run option \<times> 'w router" where
  "build_resume E b st =
     (case init E (world st) (awaited b) of
        (ok, w') \<Rightarrow>
          (let st1 = st\<lparr>world := w', events := events st @ [InitCall (awaited b) ok]\<rparr> in
           if \<not> ok then build_from (todo b) st1
           else (let st2 = (case supportedFormats E w' (awaited b) of
                              None \<Rightarrow> st1
                            | Some fs \<Rightarrow>
                                st1\<lparr>supportedFormatCache :=
                                      (supportedFormatCache st1)(handler_name (awaited b) := Some fs)\<rparr>)
                 in build_from (todo b)
                      (push_options (awaited b) (handler_options st2 (awaited b)) st2))))"

text \<open>Lines 292-296, evaluated once when the module loads.\<close>

definition conversionsFromAnyInput_init :: "'w environment \<Rightarrow> 'w \<Rightarrow> nat \<Rightarrow> ConvertPathNode list" where
  "conversionsFromAnyInput_init E w n =
     map (\<lambda>(k, (h, f)). \<lparr>nid = k, handler = h, node_format = f\<rparr>)
       (enumerate n
          (concat (map (\<lambda>h. case supportedFormats E w h of
                              None \<Rightarrow> []
                            | Some fs \<Rightarrow> map (Pair h) (filter to_flag fs))
                       (filter supportAnyInput (handlers E)))))"

section \<open>The persistent path store\<close>

text \<open>
  A template literal prints an undefined mime as the word \<^verbatim>\<open>undefined\<close>; the arrow
  of the key is written with two ASCII characters here.
\<close>

definition mime_text :: "string option \<Rightarrow> string" where
  "mime_text m = (case m of None \<Rightarrow> ''undefined'' | Some s \<Rightarrow> s)"

definition pathStoreKey :: "string option \<Rightarrow> string option \<Rightarrow> string option \<Rightarrow> string" where
  "pathStoreKey inputMime outputMime outputHandlerName =
     (case outputHandlerName of
        None \<Rightarrow> mime_text inputMime @ ''->'' @ mime_text outputMime
      | Some n \<Rightarrow>
          if n = [] then mime_text inputMime @ ''->'' @ mime_text outputMime
          else mime_text inputMime @ ''->'' @ mime_text outputMime @ '':'' @ n)"

definition storePath :: "string \<Rightarrow> ConvertPathNode list \<Rightarrow> 'w router \<Rightarrow> 'w router" where
  "storePath key path st =
     st\<lparr>pathStore := (pathStore st)(key :=
           Some (map (\<lambda>n. \<lparr>handlerName = handler_name (handler n),
                             formatMime = mime (node_format n),
                             formatFormat = format (node_format n)\<rparr>) path))\<rparr>"

definition recallPath :: "string \<Rightarrow> 'w router \<Rightarrow> ConvertPathNode list option" where
  "recallPath key st =
     (case pathStore st key of
        None \<Rightarrow> None
      | Some [] \<Rightarrow> None
      | Some (s # ss) \<Rightarrow>
          those (map (\<lambda>s. find (\<lambda>opt. handler_name (handler opt) = handlerName s \<and>
                                        mime (node_format opt) = formatMime s \<and>
                                        format (node_format opt) = formatFormat s) (allOptions st))
                     (s # ss)))"

definition evictPath :: "string \<Rightarrow> 'w router \<Rightarrow> 'w router" where
  "evictPath key st = st\<lparr>pathStore := (pathStore st)(key := None)\<rparr>"

section \<open>The convert button\<close>

datatype ui_outcome =
    AlertSelectFile
  | AlertNoInputFormat
  | AlertNoOutputFormat
  | AlertTimedOut
  | PartialDownloaded "FileData list" "ConvertPathNode list"
  | AlertNoRoute
  | Converted "FileData list" "ConvertPathNode list" bool
  | AlertUnexpected
  | StillSearching

definition SEARCH_TIMEOUT_MS :: int where
  "SEARCH_TIMEOUT_MS = 10 * 60 * 1000"

definition download_all :: "FileData list \<Rightarrow> string option \<Rightarrow> 'w router \<Rightarrow> 'w router" where
  "download_all fls m st =
     st\<lparr>events := events st @ map (\<lambda>f. Download (bytes f) (file_name f) m) fls\<rparr>"

text \<open>
  Lines 1160-1186: the path the search found is run again on an empty conversion cache;
  its output is what is downloaded.
\<close>

definition confirm_and_deliver ::
  "'w environment \<Rightarrow> FileData list \<Rightarrow> string \<Rightarrow> string option \<Rightarrow> ConvertPathNode list \<Rightarrow> 'w router
     \<Rightarrow> ui_outcome \<times> 'w router" where
  "confirm_and_deliver E inputFileData cacheKey outMime path st =
     (case attemptConvertPath E inputFileData path (st\<lparr>convertPathCache := []\<rparr>) of
        (None, st1) \<Rightarrow> (AlertNoRoute, st1)
      | (Some (out, p), st1) \<Rightarrow>
          (Converted out p False, download_all out outMime (storePath cacheKey p st1)))"

text \<open>Lines 1114-1174: the search and what follows it.\<close>

definition search_and_convert ::
  "nat \<Rightarrow> 'w environment \<Rightarrow> FileData list \<Rightarrow> string \<Rightarrow> ConvertPathNode \<Rightarrow> ConvertPathNode
     \<Rightarrow> int \<Rightarrow> 'w router \<Rightarrow> ui_outcome \<times> 'w router" where
  "search_and_convert n E inputFileData cacheKey inOpt outOpt deadline st =
     (case buildConvertPath n E inputFileData outOpt [[inOpt]] (Some deadline) st of
        (None, st1) \<Rightarrow> (StillSearching, st1)
      | (Some TIMEOUT_RESULT, st1) \<Rightarrow> (AlertTimedOut, st1)
      | (Some Threw, st1) \<Rightarrow> (AlertUnexpected, st1)
      | (Some NoRoute, st1) \<Rightarrow> (AlertNoRoute, st1)
      | (Some (Found out p), st1) \<Rightarrow>
          if p \<noteq> [] \<and> mime (node_format (last p)) \<noteq> mime (node_format outOpt)
          then (PartialDownloaded out p,
                download_all out (mime (node_format (last p))) (storePath cacheKey p st1))
          else confirm_and_deliver E inputFileData cacheKey (mime (node_format outOpt)) p st1)"

text \<open>
  The click handler (lines 961-1202). The files are given with their bytes already read.
  The progress popups and timers are not modelled, and the handler is followed from its
  first line to its return: what other event handlers might do to the router while it
  awaits a conversion is not part of this function.
\<close>

definition convertButton_click ::
  "nat \<Rightarrow> 'w environment \<Rightarrow> FileData list \<Rightarrow> ConvertPathNode option \<Rightarrow> ConvertPathNode option
     \<Rightarrow> 'w router \<Rightarrow> ui_outcome \<times> 'w router" where
  "convertButton_click n E selectedFiles selectedInputOption selectedOutputOption st =
     (if selectedFiles = [] then (AlertSelectFile, st)
      else case selectedInputOption of
        None \<Rightarrow> (AlertNoInputFormat, st)
      | Some inOpt \<Rightarrow>
          (case selectedOutputOption of
             None \<Rightarrow> (AlertNoOutputFormat, st)
           | Some outOpt \<Rightarrow>
               (let inputMime = mime (node_format inOpt);
                    outputMime = mime (node_format outOpt);
                    cacheKey = pathStoreKey inputMime outputMime
                                 (if simpleMode st then None
                                  else Some (handler_name (handler outOpt)))
                in case date_now E (world st) of
                     (startTime, w0) \<Rightarrow>
                       (let deadline = startTime + SEARCH_TIMEOUT_MS;
                            st0 = st\<lparr>world := w0\<rparr>;
                            st1 = (if inputMime = outputMime
                                   then download_all selectedFiles inputMime st0 else st0);
                            inputFileData = (if inputMime = outputMime then [] else selectedFiles)
                        in case recallPath cacheKey st1 of
                             None \<Rightarrow>
                               search_and_convert n E inputFileData cacheKey inOpt outOpt deadline st1
                           | Some cachedPath \<Rightarrow>
                               (case attemptConvertPath E inputFileData cachedPath
                                       (st1\<lparr>convertPathCache := []\<rparr>) of
                                  (Some (out, p), st2) \<Rightarrow>
                                    (Converted out p True, download_all out outputMime st2)
                                | (None, st2) \<Rightarrow>
                                    search_and_convert n E inputFileData cacheKey inOpt outOpt
                                      deadline (evictPath cacheKey st2))))))"

section \<open>The page and its runs of buildOptionList\<close>

text \<open>
  The page: the router and the runs of buildOptionList that are suspended, oldest first.
  When the module has loaded, the format cache is empty and nothing runs. A run of
  buildOptionList starts when the request for cache.json has ended (lines 1206-1219:
  with a new format cache when it succeeded, with the cache as it is when it failed) and
  at every click on the mode toggle (lines 645-649), which does not wait for the run it
  starts. \<open>InitSettled k\<close>: the init that the \<open>k\<close>-th suspended run awaits has
  settled, and that run goes on to its next await or to its end.
\<close>

record 'w page =
  router :: "'w router"
  builds :: "build_run list"

datatype page_event =
    CacheLoaded "(string \<Rightarrow> FileFormat list option) option"
  | ModeClick
  | InitSettled nat

definition page_init :: "'w environment \<Rightarrow> 'w \<Rightarrow> (string \<Rightarrow> StoredNode list option) \<Rightarrow> 'w page" where
  "page_init E w store =
     (let anyNodes = conversionsFromAnyInput_init E w 0 in
      \<lparr>router = \<lparr>world = w, supportedFormatCache = (\<lambda>n. None), convertPathCache = [],
                  allOptions = [], conversionsFromAnyInput = anyNodes, simpleMode = True,
                  pathStore = store, next_nid = length anyNodes, events = []\<rparr>,
       builds = []\<rparr>)"

text \<open>Line 541 and the loop up to its first await.\<close>

definition buildOptionList_start :: "'w environment \<Rightarrow> 'w page \<Rightarrow> 'w page" where
  "buildOptionList_start E pg =
     (case build_from (handlers E) ((router pg)\<lparr>allOptions := []\<rparr>) of
        (None, st) \<Rightarrow> pg\<lparr>router := st\<rparr>
      | (Some b, st) \<Rightarrow> \<lparr>router = st, builds = builds pg @ [b]\<rparr>)"

fun page_step :: "'w environment \<Rightarrow> page_event \<Rightarrow> 'w page \<Rightarrow> 'w page" where
  "page_step E (CacheLoaded c) pg =
     buildOptionList_start E
       (case c of
          None \<Rightarrow> pg
        | Some cacheJSON \<Rightarrow> pg\<lparr>router := (router pg)\<lparr>supportedFormatCache := cacheJSON\<rparr>\<rparr>)"
| "page_step E ModeClick pg =
     buildOptionList_start E (pg\<lparr>router := (router pg)\<lparr>simpleMode := \<not> simpleMode (router pg)\<rparr>\<rparr>)"
| "page_step E (InitSettled k) pg =
     (if k < length (builds pg) then
        (case build_resume E (builds pg ! k) (router pg) of
           (None, st) \<Rightarrow> \<lparr>router = st, builds = take k (builds pg) @ drop (Suc k) (builds pg)\<rparr>
         | (Some b, st) \<Rightarrow> \<lparr>router = st, builds = (builds pg)[k := b]\<rparr>)
      else pg)"

fun page_run :: "'w environment \<Rightarrow> page_event list \<Rightarrow> 'w page \<Rightarrow> 'w page" where
  "page_run E [] pg = pg"
| "page_run E (ev # evs) pg = page_run E evs (page_step E ev pg)"

section \<open>Reading the log\<close>

text \<open>
  For every attempt the search announced, the number of \<^verbatim>\<open>doConvert\<close> calls made before
  the next announcement.
\<close>

fun is_convert :: "event \<Rightarrow> bool" where
  "is_convert (ConvertCall h fls inF outF) = True"
| "is_convert e = False"

fun is_attempt :: "event \<Rightarrow> bool" where
  "is_attempt (PathAttempt p) = True"
| "is_attempt e = False"

fun hops_per_attempt :: "event list \<Rightarrow> (ConvertPathNode list \<times> nat) list" where
  "hops_per_attempt [] = []"
| "hops_per_attempt (PathAttempt p # evs) =
     (p, length (filter is_convert (takeWhile (\<lambda>e. \<not> is_attempt e) evs))) # hops_per_attempt evs"
| "hops_per_attempt (e # evs) = hops_per_attempt evs"

definition found_formats :: "search_result option \<Rightarrow> nat list" where
  "found_formats r = (case r of Some (Found out p) \<Rightarrow> map (\<lambda>n. oid (node_format n)) p | _ \<Rightarrow> [])"

definition option_pairs :: "ConvertPathNode list \<Rightarrow> (FormatHandler \<times> FileFormat) list" where
  "option_pairs ns = map (\<lambda>n. (handler n, node_format n)) ns"

section \<open>Iterations of the search\<close>

text \<open>
  The search after \<open>m\<close> iterations of its loop none of which returned: the queue, the
  flag \<^verbatim>\<open>isNestedConversion\<close> and the router at the top of the next iteration.
  \<open>None\<close> when the loop has ended before.
\<close>

fun bfs_steps ::
  "nat \<Rightarrow> 'w environment \<Rightarrow> FileData list \<Rightarrow> ConvertPathNode \<Rightarrow> int option
     \<Rightarrow> ConvertPathNode list list \<Rightarrow> bool \<Rightarrow> 'w router
     \<Rightarrow> (ConvertPathNode list list \<times> bool \<times> 'w router) option" where
  "bfs_steps 0 E fls target deadlineMs queue nested st = Some (queue, nested, st)"
| "bfs_steps (Suc m) E fls target deadlineMs [] nested st = None"
| "bfs_steps (Suc m) E fls target deadlineMs (p # ps) nested st =
     (case bfs_iteration E fls target deadlineMs (p # ps) nested st of
        (Some r, queue', nested', st') \<Rightarrow> None
      | (None, queue', nested', st') \<Rightarrow> bfs_steps m E fls target deadlineMs queue' nested' st')"

section \<open>Adjacency\<close>

text \<open>
  A handler declares a mime as readable when the format cache holds, under its name, a
  format with that mime and \<^verbatim>\<open>from\<close>: the format cache is what the search reads
  (lines 883-887) and what the executor searches for a handler that is ready (line 819).
  A chain is adjacent when every node's handler declares the mime of the node before it.
  The format cache agrees with the handlers when the format list a handler shows after
  an \<^verbatim>\<open>init()\<close> that resolved, called while the handler was not ready, declares the
  same readable mimes as the cache does; then an \<^verbatim>\<open>init()\<close> during the search leaves
  the declarations as they were. Nothing is asked of the list a handler shows before its
  init, and nothing of a handler that is ready.
\<close>

fun adjacent :: "'w router \<Rightarrow> ConvertPathNode list \<Rightarrow> bool" where
  "adjacent st (a # b # rest) =
     (declares_from st (handler b) (mime (node_format a)) \<and> adjacent st (b # rest))"
| "adjacent st p = True"

definition from_mimes_agree :: "'w environment \<Rightarrow> 'w router \<Rightarrow> bool" where
  "from_mimes_agree E st =
     (\<forall>w h w' fs m. \<not> ready E w h \<longrightarrow> init E w h = (True, w') \<longrightarrow>
        supportedFormats E w' h = Some fs \<longrightarrow>
        list_ex (\<lambda>f. mime f = m \<and> from_flag f) fs = declares_from st h m)"

fun ok_event :: "'w router \<Rightarrow> ConvertPathNode \<Rightarrow> event \<Rightarrow> bool" where
  "ok_event st inOpt (PathAttempt p) =
     (adjacent st p \<or> (\<exists>c \<in> set (conversionsFromAnyInput st). p = [inOpt, c]))"
| "ok_event st inOpt (ConvertCall h fls inF outF) =
     ((\<exists>f. inF = Some f \<and> from_flag f) \<or>
      (\<exists>c \<in> set (conversionsFromAnyInput st). h = handler c \<and> outF = node_format c))"
| "ok_event st inOpt e = True"

text \<open>
  What the search may log when it starts from the queue that holds only the input
  option: an attempted chain is adjacent or is the input option followed by an
  any-input node; a conversion is given a readable input format, or it is the hop into
  an any-input node. For one attempt on a path, a conversion is a hop of that path: the
  input format it is given is readable and has the mime of the node before, and when it
  is given none the handler does not declare that mime.
\<close>

fun hop_event :: "'w router \<Rightarrow> ConvertPathNode list \<Rightarrow> event \<Rightarrow> bool" where
  "hop_event st p (ConvertCall h fls inF outF) =
     (\<exists>i. Suc i < length p \<and> h = handler (p ! Suc i) \<and> outF = node_format (p ! Suc i) \<and>
          (case inF of
             None \<Rightarrow> \<not> declares_from st h (mime (node_format (p ! i)))
           | Some f \<Rightarrow> from_flag f \<and> mime f = mime (node_format (p ! i))))"
| "hop_event st p (PathAttempt q) = False"
| "hop_event st p e = True"

section \<open>Conversions behind the cache\<close>

text \<open>
  The (handler, output format) pairs of the \<^verbatim>\<open>doConvert\<close> calls of a log, in order, and
  the downloads of a log. The conversion cache is backed from position \<open>k\<close> of the log
  when the pairs of its nodes, counted with their multiplicity, are among the pairs of
  the conversions logged from there on: every entry stands for a conversion of its own.
  The cache is aligned with a path when its nodes are the nodes that follow the first
  node of the path, as far as the cache reaches. The node identities are in order for a
  bound \<open>n1\<close> when every queued path has a second node older than \<open>n1\<close> and a third
  node, if any, not older, and the second cache entry, if any, holds a node that is not
  older. The cache comes from an attempt when it is empty or aligned with a chain whose
  attempt the log announces from position \<open>k\<close> on.
\<close>

fun is_download :: "event \<Rightarrow> bool" where
  "is_download (Download b n m) = True"
| "is_download e = False"

fun convert_target :: "event \<Rightarrow> (FormatHandler \<times> FileFormat) list" where
  "convert_target (ConvertCall h fls inF outF) = [(h, outF)]"
| "convert_target e = []"

definition convert_targets :: "event list \<Rightarrow> (FormatHandler \<times> FileFormat) list" where
  "convert_targets evs = concat (map convert_target evs)"

definition node_pair :: "ConvertPathNode \<Rightarrow> FormatHandler \<times> FileFormat" where
  "node_pair nd = (handler nd, node_format nd)"

definition cached_called :: "nat \<Rightarrow> 'w router \<Rightarrow> bool" where
  "cached_called k st =
     (k \<le> length (events st) \<and>
      (\<forall>x. count_list (map (\<lambda>e. node_pair (node e)) (convertPathCache st)) x
           \<le> count_list (convert_targets (drop k (events st))) x))"

definition aligned :: "'w router \<Rightarrow> ConvertPathNode list \<Rightarrow> bool" where
  "aligned st p = (map node (convertPathCache st) = take (length (convertPathCache st)) (tl p))"

definition cache_of_attempt :: "nat \<Rightarrow> 'w router \<Rightarrow> bool" where
  "cache_of_attempt k st =
     (convertPathCache st = [] \<or>
      (\<exists>q. PathAttempt q \<in> set (drop k (events st)) \<and> aligned st q))"

definition ids_ok :: "nat \<Rightarrow> ConvertPathNode list list \<Rightarrow> 'w router \<Rightarrow> bool" where
  "ids_ok n1 queue st =
     (n1 \<le> next_nid st \<and>
      list_all (\<lambda>q. Suc 0 < length q \<and> nid (q ! Suc 0) < n1 \<and>
                    (length q \<le> Suc (Suc 0) \<or> n1 \<le> nid (q ! Suc (Suc 0)))) queue \<and>
      (length (convertPathCache st) \<le> Suc 0 \<or> n1 \<le> nid (node (convertPathCache st ! Suc 0))))"

section \<open>A run of buildOptionList that nothing interrupts\<close>

text \<open>
  The loop of buildOptionList (lines 544-620) when nothing else runs while it awaits:
  every init settles and the loop goes on at once. Lines 545-554 for one handler:
  \<open>False\<close> is the \<^verbatim>\<open>continue\<close> after a rejected \<^verbatim>\<open>init()\<close>. This is what a
  run on the page comes to when each of its inits settles before any other event.
\<close>

definition ensure_cached :: "'w environment \<Rightarrow> FormatHandler \<Rightarrow> 'w router \<Rightarrow> bool \<times> 'w router" where
  "ensure_cached E h st =
     (case supportedFormatCache st (handler_name h) of
        Some fs \<Rightarrow> (True, st)
      | None \<Rightarrow>
          (case init E (world st) h of
             (ok, w') \<Rightarrow>
               (let st1 = st\<lparr>world := w', events := events st @ [InitCall h ok]\<rparr> in
                if \<not> ok then (False, st1)
                else (case supportedFormats E w' h of
                        None \<Rightarrow> (True, st1)
                      | Some fs \<Rightarrow>
                          (True, st1\<lparr>supportedFormatCache :=
                                       (supportedFormatCache st1)(handler_name h := Some fs)\<rparr>)))))"

fun buildOptionList_loop :: "'w environment \<Rightarrow> FormatHandler list \<Rightarrow> 'w router \<Rightarrow> 'w router" where
  "buildOptionList_loop E [] st = st"
| "buildOptionList_loop E (h # hs) st =
     (case ensure_cached E h st of
        (False, st1) \<Rightarrow> buildOptionList_loop E hs st1
      | (True, st1) \<Rightarrow> buildOptionList_loop E hs (push_options h (handler_options st1 h) st1))"

section \<open>Calls of init\<close>

text \<open>The outcomes of the \<^verbatim>\<open>init()\<close> calls of one handler, in the order of the log.\<close>

fun init_result :: "FormatHandler \<Rightarrow> event \<Rightarrow> bool list" where
  "init_result h (InitCall g b) = (if g = h then [b] else [])"
| "init_result h e = []"

definition init_results :: "FormatHandler \<Rightarrow> event list \<Rightarrow> bool list" where
  "init_results h evs = concat (map (init_result h) evs)"

section \<open>Example configurations\<close>

definition mkFormat :: "nat \<Rightarrow> string \<Rightarrow> bool \<Rightarrow> bool \<Rightarrow> FileFormat" where
  "mkFormat i m f t = \<lparr>oid = i, name = m, format = m, extension = m, mime = Some m,
                       from_flag = f, to_flag = t, internal = Some m\<rparr>"

definition mkHandler :: "nat \<Rightarrow> string \<Rightarrow> bool \<Rightarrow> FormatHandler" where
  "mkHandler i n a = \<lparr>hid = i, handler_name = n, supportAnyInput = a\<rparr>"

definition mkNode :: "nat \<Rightarrow> FormatHandler \<Rightarrow> FileFormat \<Rightarrow> ConvertPathNode" where
  "mkNode i h f = \<lparr>nid = i, handler = h, node_format = f\<rparr>"

definition one_file :: "FileData list" where
  "one_file = [\<lparr>file_name = ''f'', bytes = [1]\<rparr>]"

text \<open>
  Three handlers: h1 reads i and writes a; h2 reads a and writes x and y; h3 reads x
  and y and writes t, but its conversion from x throws. The world counts the
  conversions; every handler is ready.
\<close>

definition h1 :: FormatHandler where "h1 = mkHandler 1 ''h1'' False"
definition h2 :: FormatHandler where "h2 = mkHandler 2 ''h2'' False"
definition h3 :: FormatHandler where "h3 = mkHandler 3 ''h3'' False"

definition formats1 :: "string \<Rightarrow> FileFormat list option" where
  "formats1 n =
     (if n = ''h1'' then Some [mkFormat 1 ''i'' True False, mkFormat 2 ''a'' False True]
      else if n = ''h2'' then Some [mkFormat 3 ''a'' True False, mkFormat 4 ''x'' False True,
                                    mkFormat 5 ''y'' False True]
      else if n = ''h3'' then Some [mkFormat 6 ''x'' True False, mkFormat 7 ''y'' True False,
                                    mkFormat 8 ''t'' False True]
      else None)"

definition env1 :: "nat environment" where
  "env1 = \<lparr>handlers = [h1, h2, h3],
           ready = (\<lambda>w h. True),
           supportedFormats = (\<lambda>w h. formats1 (handler_name h)),
           init = (\<lambda>w h. (True, w)),
           doConvert = (\<lambda>w h fls inF outF.
              (if hid h = 3 \<and> (case inF of None \<Rightarrow> False | Some f \<Rightarrow> mime f = Some ''x'')
               then None else Some one_file, Suc w)),
           date_now = (\<lambda>w. (int w, w))\<rparr>"

definition options1 :: "ConvertPathNode list" where
  "options1 = [mkNode 0 h1 (mkFormat 1 ''i'' True False), mkNode 1 h1 (mkFormat 2 ''a'' False True),
               mkNode 2 h2 (mkFormat 3 ''a'' True False), mkNode 3 h2 (mkFormat 4 ''x'' False True),
               mkNode 4 h2 (mkFormat 5 ''y'' False True), mkNode 5 h3 (mkFormat 6 ''x'' True False),
               mkNode 6 h3 (mkFormat 7 ''y'' True False), mkNode 7 h3 (mkFormat 8 ''t'' False True)]"

definition router1 :: "nat router" where
  "router1 = \<lparr>world = 0, supportedFormatCache = formats1, convertPathCache = [],
              allOptions = options1, conversionsFromAnyInput = [], simpleMode = True,
              pathStore = (\<lambda>k. None), next_nid = 9, events = []\<rparr>"

definition input1 :: ConvertPathNode where
  "input1 = mkNode 0 h1 (mkFormat 1 ''i'' True False)"

definition target1 :: ConvertPathNode where
  "target1 = mkNode 8 h3 (mkFormat 8 ''t'' False True)"

text \<open>
  The first configuration with a clock that advances 400 seconds with every conversion.
\<close>

definition env1c :: "nat environment" where
  "env1c = env1\<lparr>date_now := (\<lambda>w. (int w * 400000, w))\<rparr>"

text \<open>
  One handler that reads i and t and writes t; its first conversion throws, every later
  one succeeds.
\<close>

definition hf :: FormatHandler where "hf = mkHandler 1 ''hf'' False"
definition formats2 :: "string \<Rightarrow> FileFormat list option" where
  "formats2 n = (if n = ''hf'' then Some [mkFormat 1 ''i'' True False, mkFormat 2 ''t'' True True] else None)"
definition env2 :: "nat environment" where
  "env2 = \<lparr>handlers = [hf], ready = (\<lambda>w h. True),
           supportedFormats = (\<lambda>w h. formats2 (handler_name h)),
           init = (\<lambda>w h. (True, w)),
           doConvert = (\<lambda>w h fls inF outF. (if w = 0 then None else Some one_file, Suc w)),
           date_now = (\<lambda>w. (int w, w))\<rparr>"
definition input2 :: ConvertPathNode where "input2 = mkNode 0 hf (mkFormat 1 ''i'' True False)"
definition target2 :: ConvertPathNode where "target2 = mkNode 2 hf (mkFormat 2 ''t'' True True)"
definition router2 :: "nat router" where
  "router2 = \<lparr>world = 0, supportedFormatCache = formats2, convertPathCache = [],
              allOptions = [input2, mkNode 1 hf (mkFormat 2 ''t'' True True)],
              conversionsFromAnyInput = [], simpleMode = True,
              pathStore = (\<lambda>k. None), next_nid = 3, events = []\<rparr>"

text \<open>
  One handler that reads and writes PNG and returns the files it is given. The input
  and the output selected are both PNG.
\<close>

definition hp :: FormatHandler where "hp = mkHandler 1 ''hp'' False"
definition formats3 :: "string \<Rightarrow> FileFormat list option" where
  "formats3 n = (if n = ''hp'' then Some [mkFormat 1 ''image/png'' True True] else None)"
definition env3 :: "nat environment" where
  "env3 = \<lparr>handlers = [hp], ready = (\<lambda>w h. True),
           supportedFormats = (\<lambda>w h. formats3 (handler_name h)),
           init = (\<lambda>w h. (True, w)),
           doConvert = (\<lambda>w h fls inF outF. (Some fls, Suc w)),
           date_now = (\<lambda>w. (int w, w))\<rparr>"
definition input3 :: ConvertPathNode where "input3 = mkNode 0 hp (mkFormat 1 ''image/png'' True True)"
definition target3 :: ConvertPathNode where "target3 = mkNode 1 hp (mkFormat 1 ''image/png'' True True)"
definition router3 :: "nat router" where
  "router3 = \<lparr>world = 0, supportedFormatCache = formats3, convertPathCache = [],
              allOptions = [input3], conversionsFromAnyInput = [], simpleMode = True,
              pathStore = (\<lambda>k. None), next_nid = 2, events = []\<rparr>"


text \<open>
  Two handlers and an empty format cache: the init of h1 is rejected; h2 declares a
  format with neither flag, a format without mime and a format that is only read.
\<close>

definition formats9 :: "FileFormat list" where
  "formats9 = [mkFormat 1 ''m'' False False, (mkFormat 2 ''n'' True True)\<lparr>mime := None\<rparr>,
               mkFormat 3 ''k'' True False]"
definition env9 :: "nat environment" where
  "env9 = \<lparr>handlers = [h1, h2], ready = (\<lambda>w h. h = h2 \<and> 0 < w),
           supportedFormats = (\<lambda>w h. if h = h2 \<and> 0 < w then Some formats9 else None),
           init = (\<lambda>w h. (h = h2, if h = h2 then Suc w else w)),
           doConvert = (\<lambda>w h fls inF outF. (None, w)),
           date_now = (\<lambda>w. (int w, w))\<rparr>"
definition router9 :: "nat router" where
  "router9 = \<lparr>world = 0, supportedFormatCache = (\<lambda>n. None), convertPathCache = [],
              allOptions = [], conversionsFromAnyInput = [], simpleMode = True,
              pathStore = (\<lambda>k. None), next_nid = 0, events = []\<rparr>"

text \<open>
  An any-input handler that only writes t, and the handler of the input format i, which
  writes nothing.
\<close>

definition hr :: FormatHandler where "hr = mkHandler 1 ''rename'' True"
definition hi :: FormatHandler where "hi = mkHandler 2 ''hi'' False"

definition formats5 :: "string \<Rightarrow> FileFormat list option" where
  "formats5 n = (if n = ''rename'' then Some [mkFormat 1 ''t'' False True]
                 else if n = ''hi'' then Some [mkFormat 2 ''i'' True False] else None)"

definition env5 :: "nat environment" where
  "env5 = \<lparr>handlers = [hr, hi], ready = (\<lambda>w h. True),
           supportedFormats = (\<lambda>w h. formats5 (handler_name h)),
           init = (\<lambda>w h. (True, w)),
           doConvert = (\<lambda>w h fls inF outF. (Some one_file, Suc w)),
           date_now = (\<lambda>w. (int w, w))\<rparr>"

definition input5 :: ConvertPathNode where "input5 = mkNode 1 hi (mkFormat 2 ''i'' True False)"
definition any5 :: ConvertPathNode where "any5 = mkNode 2 hr (mkFormat 1 ''t'' False True)"
definition target5 :: ConvertPathNode where "target5 = mkNode 3 hr (mkFormat 1 ''t'' False True)"

definition router5 :: "nat router" where
  "router5 = \<lparr>world = 0, supportedFormatCache = formats5, convertPathCache = [],
              allOptions = [mkNode 0 hr (mkFormat 1 ''t'' False True), input5],
              conversionsFromAnyInput = [any5], simpleMode = True,
              pathStore = (\<lambda>k. None), next_nid = 4, events = []\<rparr>"

text \<open>
  A handler that is initialised lazily: until an \<^verbatim>\<open>init()\<close> has resolved it is not ready
  and its format list is empty; afterwards it shows the list it is given here. The
  format cache (read from cache.json) says that it reads i and writes t. With the list
  \<open>formatsL\<close> the handler agrees with the cache; with \<open>formatsJ\<close> the cache is stale:
  the handler reads j, not i.
\<close>

definition hl :: FormatHandler where "hl = mkHandler 1 ''hl'' False"

definition formatsL :: "FileFormat list" where
  "formatsL = [mkFormat 1 ''i'' True False, mkFormat 2 ''t'' False True]"

definition formatsJ :: "FileFormat list" where
  "formatsJ = [mkFormat 3 ''j'' True False, mkFormat 2 ''t'' False True]"

definition env_lazy :: "FileFormat list \<Rightarrow> nat environment" where
  "env_lazy real =
     \<lparr>handlers = [hl], ready = (\<lambda>w h. 0 < w),
      supportedFormats = (\<lambda>w h. if handler_name h = ''hl''
                                  then (if 0 < w then Some real else Some []) else None),
      init = (\<lambda>w h. (True, Suc w)),
      doConvert = (\<lambda>w h fls inF outF. (Some one_file, w)),
      date_now = (\<lambda>w. (int w, w))\<rparr>"

definition inputL :: ConvertPathNode where "inputL = mkNode 0 hl (mkFormat 1 ''i'' True False)"
definition optionL :: ConvertPathNode where "optionL = mkNode 1 hl (mkFormat 2 ''t'' False True)"
definition targetL :: ConvertPathNode where "targetL = mkNode 2 hl (mkFormat 2 ''t'' False True)"

definition routerL :: "nat router" where
  "routerL = \<lparr>world = 0, supportedFormatCache = (\<lambda>n. if n = ''hl'' then Some formatsL else None),
              convertPathCache = [], allOptions = [inputL, optionL], conversionsFromAnyInput = [],
              simpleMode = True, pathStore = (\<lambda>k. None), next_nid = 3, events = []\<rparr>"

text \<open>
  The handler of the stale cache when it is ready from the start and shows its own list
  \<open>formatsJ\<close> all along: the router never calls its init and goes by the cache.
\<close>

definition env_ready_stale :: "nat environment" where
  "env_ready_stale =
     (env_lazy formatsJ)\<lparr>ready := (\<lambda>w h. True),
                          supportedFormats := (\<lambda>w h. if handler_name h = ''hl'' then Some formatsJ else None)\<rparr>"

text \<open>The same router with the chain from i to t already in the path store.\<close>

definition routerLs :: "nat router" where
  "routerLs = routerL\<lparr>pathStore := (\<lambda>k. if k = ''i->t''
       then Some [\<lparr>handlerName = ''hl'', formatMime = Some ''i'', formatFormat = ''i''\<rparr>,
                  \<lparr>handlerName = ''hl'', formatMime = Some ''t'', formatFormat = ''t''\<rparr>]
       else None)\<rparr>"

text \<open>The page of the any-input configuration after one click on convert.\<close>

definition page5 :: "nat router" where
  "page5 = snd (convertButton_click 10 env5 one_file (Some input5) (Some target5) router5)"

text \<open>
  One handler that reads i and writes t; its first conversion succeeds and every later
  one throws. The last definition is the chain the search finds in the first
  configuration.
\<close>

definition hd4 :: FormatHandler where "hd4 = mkHandler 1 ''hd'' False"

definition formats4 :: "string \<Rightarrow> FileFormat list option" where
  "formats4 n = (if n = ''hd'' then Some [mkFormat 1 ''i'' True False, mkFormat 2 ''t'' False True]
                 else None)"

definition env4 :: "nat environment" where
  "env4 = \<lparr>handlers = [hd4], ready = (\<lambda>w h. True),
           supportedFormats = (\<lambda>w h. formats4 (handler_name h)),
           init = (\<lambda>w h. (True, w)),
           doConvert = (\<lambda>w h fls inF outF. (if w = 0 then Some one_file else None, Suc w)),
           date_now = (\<lambda>w. (int w, w))\<rparr>"

definition input4 :: ConvertPathNode where "input4 = mkNode 0 hd4 (mkFormat 1 ''i'' True False)"
definition option4 :: ConvertPathNode where "option4 = mkNode 1 hd4 (mkFormat 2 ''t'' False True)"
definition target4 :: ConvertPathNode where "target4 = mkNode 2 hd4 (mkFormat 2 ''t'' False True)"

definition router4 :: "nat router" where
  "router4 = \<lparr>world = 0, supportedFormatCache = formats4, convertPathCache = [],
              allOptions = [input4, option4], conversionsFromAnyInput = [], simpleMode = True,
              pathStore = (\<lambda>k. None), next_nid = 3, events = []\<rparr>"

definition chain1 :: "ConvertPathNode list" where
  "chain1 = [input1, mkNode 9 h1 (mkFormat 2 ''a'' False True),
             mkNode 11 h2 (mkFormat 5 ''y'' False True), mkNode 7 h3 (mkFormat 8 ''t'' False True)]"

text \<open>
  The fourth configuration with a handler object that has no \<^verbatim>\<open>ready\<close> property (the
  router reads it as false at every hop), on a page that starts without cache.json: the
  first run of buildOptionList has ended, then the user clicks on convert.
\<close>

definition env6 :: "nat environment" where
  "env6 = env4\<lparr>ready := (\<lambda>w h. False)\<rparr>"

definition page6 :: "nat router" where
  "page6 = snd (convertButton_click 10 env6 one_file (Some input4) (Some target4)
                  (router (page_run env6 [CacheLoaded None, InitSettled 0] (page_init env6 0 (\<lambda>k. None)))))"

text \<open>
  The page of the lazily initialised handler, started without cache.json: the user
  clicks on the mode toggle while the first run of buildOptionList awaits the init of
  the handler; then the init of the first run settles, then that of the second.
\<close>

definition page_overlap :: "nat page" where
  "page_overlap = page_run (env_lazy formatsL) [CacheLoaded None, ModeClick, InitSettled 0, InitSettled 0]
                    (page_init (env_lazy formatsL) 0 (\<lambda>k. None))"

text \<open>The page of the two handlers with an empty format cache, no run suspended.\<close>

definition page9 :: "nat page" where
  "page9 = \<lparr>router = router9, builds = []\<rparr>"

section \<open>The log of outside calls only grows\<close>

lemma ready_formats_events:
  "ready_formats E h st = (r, st') \<Longrightarrow> \<exists>evs. events st' = events st @ evs \<and> (\<forall>p. PathAttempt p \<notin> set evs)"
  by (auto simp: ready_formats_def Let_def split: if_splits prod.splits option.splits)

lemma attempt_hop_events:
  "attempt_hop E path i fls st = (r, st') \<Longrightarrow> \<exists>evs. events st' = events st @ evs \<and> (\<forall>p. PathAttempt p \<notin> set evs)"
  unfolding attempt_hop_def Let_def
  by (auto split: if_splits prod.splits option.splits dest!: ready_formats_events)

lemma attempt_from_events:
  "attempt_from E path i fls st = (r, st') \<Longrightarrow> \<exists>evs. events st' = events st @ evs \<and> (\<forall>p. PathAttempt p \<notin> set evs)"
proof (induction E path i fls st rule: attempt_from.induct)
  case (1 E path i fls st)
  show ?case
  proof (cases "i + 1 < length path")
    case False
    with "1.prems" show ?thesis by (simp add: attempt_from.simps)
  next
    case True
    obtain ro st1 where hop: "attempt_hop E path i fls st = (ro, st1)" by (cases "attempt_hop E path i fls st")
    from attempt_hop_events[OF hop] obtain evs1 where e1: "events st1 = events st @ evs1" "\<forall>p. PathAttempt p \<notin> set evs1" by blast
    show ?thesis
    proof (cases ro)
      case None
      with True hop "1.prems" e1 show ?thesis by (auto simp: attempt_from.simps)
    next
      case (Some out)
      with True hop "1.prems" have "attempt_from E path (Suc i) out st1 = (r, st')" by (simp add: attempt_from.simps)
      from "1.IH"[OF True hop[symmetric] _ this] Some obtain evs2 where "events st' = events st1 @ evs2" "\<forall>p. PathAttempt p \<notin> set evs2" by auto
      with e1 show ?thesis by auto
    qed
  qed
qed

lemma attemptConvertPath_events:
  "attemptConvertPath E fls path st = (r, st') \<Longrightarrow> \<exists>evs. events st' = events st @ evs \<and> (\<forall>p. PathAttempt p \<notin> set evs)"
  unfolding attemptConvertPath_def by (auto split: list.splits dest: attempt_from_events)

lemma try_candidates_events:
  "try_candidates E fls path cs st = (r, st') \<Longrightarrow>
     \<exists>evs. events st' = events st @ evs \<and> (\<forall>p. PathAttempt p \<in> set evs \<longrightarrow> length p = Suc (length path))"
proof (induction cs arbitrary: st)
  case Nil
  then show ?case by simp
next
  case (Cons c cs)
  let ?st0 = "st\<lparr>events := events st @ [PathAttempt (path @ [c])]\<rparr>"
  obtain ro st1 where a: "attemptConvertPath E fls (path @ [c]) ?st0 = (ro, st1)" by (cases "attemptConvertPath E fls (path @ [c]) ?st0")
  from attemptConvertPath_events[OF a] obtain evs1 where e1: "events st1 = events st @ [PathAttempt (path @ [c])] @ evs1" "\<forall>p. PathAttempt p \<notin> set evs1" by auto
  show ?case
  proof (cases ro)
    case (Some x)
    with a Cons.prems e1 show ?thesis by auto
  next
    case None
    with a Cons.prems have "try_candidates E fls path cs st1 = (r, st')" by simp
    from Cons.IH[OF this] obtain evs2 where "events st' = events st1 @ evs2" "\<forall>p. PathAttempt p \<in> set evs2 \<longrightarrow> length p = Suc (length path)" by blast
    with e1 show ?thesis by auto
  qed
qed


lemma push_all_length: "q \<in> set (push_all n path hfs) \<Longrightarrow> length q = Suc (length path)"
  by (auto simp: push_all_def)

lemma process_path_events:
  assumes "process_path E fls target path queue nested st = (r, queue', nested', st')"
  shows "\<exists>evs. events st' = events st @ evs \<and> (\<forall>p. PathAttempt p \<in> set evs \<longrightarrow> length p \<le> 6)"
proof (cases "5 < length path")
  case True
  with assms show ?thesis by (simp add: process_path_def)
next
  case False
  let ?st1 = "st\<lparr>convertPathCache := realign path 1 (convertPathCache st)\<rparr>"
  show ?thesis
  proof (cases "validHandlers E ?st1 path")
    case None
    with False assms show ?thesis by (auto simp: process_path_def Let_def)
  next
    case (Some valid)
    obtain r2 st2 where t1: "try_candidates E fls path (target_candidates ?st1 valid target) ?st1 = (r2, st2)"
      by (cases "try_candidates E fls path (target_candidates ?st1 valid target) ?st1")
    from try_candidates_events[OF t1] obtain evs1 where
      e1: "events st2 = events st @ evs1" "\<forall>p. PathAttempt p \<in> set evs1 \<longrightarrow> length p = Suc (length path)"
      by auto
    show ?thesis
    proof (cases r2)
      case (Some a)
      with False \<open>validHandlers E ?st1 path = Some valid\<close> t1 assms e1 show ?thesis
        by (auto simp: process_path_def Let_def split: prod.splits)
    next
      case None
      obtain r3 st3 where t2: "(if nested then (None, st2) else try_candidates E fls path (anyConversions st2 target) st2) = (r3, st3)"
        by (cases "(if nested then (None, st2) else try_candidates E fls path (anyConversions st2 target) st2)")
      have "\<exists>evs. events st3 = events st2 @ evs \<and> (\<forall>p. PathAttempt p \<in> set evs \<longrightarrow> length p = Suc (length path))"
        using t2 try_candidates_events[of E fls path "anyConversions st2 target" st2 r3 st3]
        by (auto split: if_splits)
      then obtain evs2 where e2: "events st3 = events st2 @ evs2" "\<forall>p. PathAttempt p \<in> set evs2 \<longrightarrow> length p = Suc (length path)"
        by blast
      have "events st' = events st3"
        using False \<open>validHandlers E ?st1 path = Some valid\<close> t1 None t2 assms
        by (auto simp: process_path_def Let_def split: prod.splits option.splits)
      with e1 e2 False show ?thesis by auto
    qed
  qed
qed

lemma deadline_exceeded_events: "deadline_exceeded E d st = (b, st') \<Longrightarrow> events st' = events st"
  by (auto simp: deadline_exceeded_def split: option.splits if_splits prod.splits)

lemma bfs_iteration_events:
  assumes "bfs_iteration E fls target d queue nested st = (r, queue', nested', st')"
  shows "\<exists>evs. events st' = events st @ evs \<and> (\<forall>p. PathAttempt p \<in> set evs \<longrightarrow> length p \<le> 6)"
proof -
  obtain b st1 where d: "deadline_exceeded E d st = (b, st1)" by (cases "deadline_exceeded E d st")
  show ?thesis
  proof (cases b)
    case True
    with d assms deadline_exceeded_events[OF d] show ?thesis by (auto simp: bfs_iteration_def)
  next
    case False
    with d assms have "process_path E fls target (hd queue) (tl queue) nested st1 = (r, queue', nested', st')"
      by (simp add: bfs_iteration_def)
    from process_path_events[OF this] deadline_exceeded_events[OF d] show ?thesis by simp
  qed
qed

lemma bfs_loop_events:
  "bfs_loop n E fls target d queue nested st = (r, st') \<Longrightarrow>
     \<exists>evs. events st' = events st @ evs \<and> (\<forall>p. PathAttempt p \<in> set evs \<longrightarrow> length p \<le> 6)"
proof (induction n E fls target d queue nested st rule: bfs_loop.induct)
  case (1 n E fls target d nested st)
  then show ?case by simp
next
  case (2 E fls target d p ps nested st)
  then show ?case by simp
next
  case (3 n E fls target d p ps nested st)
  obtain ro q' n' st1 where it: "bfs_iteration E fls target d (p # ps) nested st = (ro, q', n', st1)"
    by (cases "bfs_iteration E fls target d (p # ps) nested st") auto
  from bfs_iteration_events[OF it] obtain evs1 where
    e1: "events st1 = events st @ evs1" "\<forall>p. PathAttempt p \<in> set evs1 \<longrightarrow> length p \<le> 6" by blast
  show ?case
  proof (cases ro)
    case (Some a)
    with it "3.prems" e1 show ?thesis by auto
  next
    case None
    with it "3.prems" have "bfs_loop n E fls target d q' n' st1 = (r, st')" by simp
    from "3.IH"[OF it[symmetric] _ _ _ this] None obtain evs2 where
      "events st' = events st1 @ evs2" "\<forall>p. PathAttempt p \<in> set evs2 \<longrightarrow> length p \<le> 6" by auto
    with e1 show ?thesis by auto
  qed
qed

section \<open>Bounded chain length\<close>

text \<open>
  Claim C7. Every chain the search hands to attemptConvertPath (each is announced by a
  \<open>PathAttempt\<close> entry of the log) has at most 6 nodes, whatever the queue, the
  handlers and the number of iterations.
\<close>

theorem C7_chain_length_bounded:
  assumes "buildConvertPath n E fls target queue deadlineMs st = (r, st')"
    and "PathAttempt p \<in> set (drop (length (events st)) (events st'))"
  shows "length p \<le> 6"
proof -
  from assms(1) have "bfs_loop n E fls target deadlineMs queue False (st\<lparr>convertPathCache := []\<rparr>) = (r, st')"
    by (simp add: buildConvertPath_def)
  from bfs_loop_events[OF this] obtain evs where
    "events st' = events st @ evs" "\<forall>p. PathAttempt p \<in> set evs \<longrightarrow> length p \<le> 6" by auto
  with assms(2) show ?thesis by simp
qed

theorem C7_chain_length_bounded_witness:
  "\<exists>p. PathAttempt p \<in> set (drop (length (events router1))
          (events (snd (buildConvertPath 10 env1 one_file target1 [[input1]] None router1)))) \<and>
       length p = 4 \<and> length p \<le> 6"
proof -
  let ?p = "[input1, mkNode 9 h1 (mkFormat 2 ''a'' False True),
             mkNode 10 h2 (mkFormat 4 ''x'' False True), mkNode 7 h3 (mkFormat 8 ''t'' False True)]"
  have mem: "PathAttempt ?p \<in> set (drop (length (events router1))
          (events (snd (buildConvertPath 10 env1 one_file target1 [[input1]] None router1))))"
    by code_simp
  have "length ?p \<le> 6"
    by (rule C7_chain_length_bounded [OF surjective_pairing mem])
  with mem show ?thesis by (intro exI [of _ ?p]) simp
qed

section \<open>Prefix cache\<close>

text \<open>
  Claim C1 says that, of two consecutive attempts whose chains share a prefix, the second
  runs only the hops after the prefix. In the first configuration the search attempts
  the chains of nodes 0, 9, 10, 7 and then 0, 9, 11, 7. They share the hop from node 0
  to node 9, which the first attempt ran and cached; the second chain has 4 nodes, so 2
  hops remain. The second attempt calls doConvert 3 times: realign compares node
  \<open>i\<close> of the path with cache entry \<open>i\<close>, which holds node \<open>i + 1\<close>, and
  empties the cache.
\<close>

theorem C1_shared_prefix_is_executed_again:
  "map (\<lambda>(p, k). (map nid p, k))
     (hops_per_attempt (events (snd (buildConvertPath 10 env1 one_file target1 [[input1]] None router1))))
   = [([0, 9, 10, 7], 3), ([0, 9, 11, 7], 3)]"
  by code_simp

section \<open>Cycle freedom\<close>

text \<open>
  Claim C2 says that no chain returned as a success repeats a format. The expansion step
  skips a format that is already on the path, but the node that closes a chain is
  appended unchecked. In the second configuration the chain found holds the formats
  1, 2, 2: the handler's first conversion throws, so the direct chain fails, and the
  chain later built from the queued path ends in the same format twice. In the third
  configuration input and output are the same PNG format and the chain found is that
  format twice.
\<close>

theorem C2_found_chain_repeats_a_format:
  "found_formats (fst (buildConvertPath 10 env2 one_file target2 [[input2]] None router2)) = [1, 2, 2] \<and>
   found_formats (fst (buildConvertPath 10 env3 [] target3 [[input3]] None router3)) = [1, 1]"
  by code_simp

section \<open>Passthrough\<close>

text \<open>
  Claim C3 says that with equal input and output mime no chain is built and no handler
  is called. The click handler downloads every input file unchanged, but then goes on
  with an empty file list: with nothing in the path store it searches, the search finds
  the chain PNG, PNG, and that chain is run twice (once by the search, once to confirm
  it), each run calling doConvert.
\<close>

theorem C3_passthrough_still_converts:
  "mime (node_format input3) = mime (node_format target3) \<and>
   fst (convertButton_click 10 env3 one_file (Some input3) (Some target3) router3)
     = Converted [] [input3, input3] False \<and>
   map is_convert (events (snd (convertButton_click 10 env3 one_file (Some input3) (Some target3) router3)))
     = [False, False, True, True] \<and>
   hd (events (snd (convertButton_click 10 env3 one_file (Some input3) (Some target3) router3)))
     = Download [1] ''f'' (Some ''image/png'')"
  by code_simp

section \<open>Deadline\<close>

lemma bfs_loop_after_steps:
  "bfs_steps m E fls target deadlineMs queue nested st = Some (queue', nested', st') \<Longrightarrow>
     bfs_loop (m + k) E fls target deadlineMs queue nested st =
     bfs_loop k E fls target deadlineMs queue' nested' st'"
proof (induction m E fls target deadlineMs queue nested st rule: bfs_steps.induct)
  case (1 E fls target deadlineMs queue nested st)
  then show ?case by simp
next
  case (2 m E fls target deadlineMs nested st)
  then show ?case by simp
next
  case (3 m E fls target deadlineMs p ps nested st)
  then show ?case
    by (auto split: prod.splits option.splits)
qed

text \<open>
  The one call of buildConvertPath (lines 1117-1123) passes the clock reading taken at
  the click plus \<^verbatim>\<open>SEARCH_TIMEOUT_MS\<close>. The clock counts milliseconds from 1970, so
  the deadline the search receives is never 0, the one number the guard of line 861
  takes for a missing deadline.
\<close>

lemma click_deadline_not_zero: "0 \<le> startTime \<Longrightarrow> startTime + SEARCH_TIMEOUT_MS \<noteq> 0"
  by (simp add: SEARCH_TIMEOUT_MS_def)

text \<open>
  Claim C4. Take any search, with the deadline \<open>d\<close> it was given, and any iteration of
  its loop: \<open>m\<close> iterations have gone by without a return and the queue is not empty. If
  the clock read at the top of this iteration is past \<open>d\<close>, the search returns there,
  whatever is queued: the files of the last entry of the conversion cache with the nodes
  of all its entries when the cache is not empty, the timeout value when it is. Nothing
  but the clock has moved since the iteration before. If the clock is not past \<open>d\<close>,
  the search does not return there: it dequeues the first path and goes on with it.
\<close>

theorem C4_deadline_behaviour:
  assumes "bfs_steps m E fls target (Some d) queue False (st\<lparr>convertPathCache := []\<rparr>)
             = Some (p # ps, nested, stm)"
    and "d \<noteq> 0" and "date_now E (world stm) = (t, w')"
  shows "buildConvertPath (m + Suc k) E fls target queue (Some d) st =
           (if d < t then
              (Some (if convertPathCache stm = [] then TIMEOUT_RESULT
                     else Found (files (last (convertPathCache stm))) (map node (convertPathCache stm))),
               stm\<lparr>world := w'\<rparr>)
            else
              (case process_path E fls target p ps nested (stm\<lparr>world := w'\<rparr>) of
                 (Some r, queue', nested', st') \<Rightarrow> (Some r, st')
               | (None, queue', nested', st') \<Rightarrow> bfs_loop k E fls target (Some d) queue' nested' st'))"
proof -
  have "bfs_loop (Suc k) E fls target (Some d) (p # ps) nested stm =
           (if d < t then
              (Some (if convertPathCache stm = [] then TIMEOUT_RESULT
                     else Found (files (last (convertPathCache stm))) (map node (convertPathCache stm))),
               stm\<lparr>world := w'\<rparr>)
            else
              (case process_path E fls target p ps nested (stm\<lparr>world := w'\<rparr>) of
                 (Some r, queue', nested', st') \<Rightarrow> (Some r, st')
               | (None, queue', nested', st') \<Rightarrow> bfs_loop k E fls target (Some d) queue' nested' st'))"
    using assms(2,3)
    by (simp add: bfs_iteration_def deadline_exceeded_def partial_result_def split: list.splits)
  with bfs_loop_after_steps[OF assms(1), of "Suc k"] show ?thesis
    by (simp add: buildConvertPath_def)
qed

theorem C4_deadline_behaviour_witness:
  "fst (buildConvertPath 4 env1c one_file target1 [[input1]] (Some (0 + SEARCH_TIMEOUT_MS)) router1)
     = Some (Found one_file [mkNode 9 h1 (mkFormat 2 ''a'' False True),
                             mkNode 10 h2 (mkFormat 4 ''x'' False True)]) \<and>
   fst (buildConvertPath 1 env1c one_file target1 [[input1]] (Some (0 + SEARCH_TIMEOUT_MS))
          (router1\<lparr>world := 2\<rparr>))
     = Some TIMEOUT_RESULT \<and>
   fst (buildConvertPath 1 env1c one_file target1 [[input1]] (Some (0 + SEARCH_TIMEOUT_MS))
          (router1\<lparr>world := 1\<rparr>))
     = None"
proof -
  let ?d = "0 + SEARCH_TIMEOUT_MS"
  let ?s = "bfs_steps 3 env1c one_file target1 (Some ?d) [[input1]] False
              (router1\<lparr>convertPathCache := []\<rparr>)"
  have d: "?d \<noteq> 0" by (rule click_deadline_not_zero) simp
  have some: "?s \<noteq> None" by code_simp
  have queue: "fst (the ?s) \<noteq> []" by code_simp
  have steps: "?s = Some (hd (fst (the ?s)) # tl (fst (the ?s)), fst (snd (the ?s)), snd (snd (the ?s)))"
    using some queue by auto
  have clock: "date_now env1c (world (snd (snd (the ?s)))) = (1200000, 3)" by code_simp
  have late: "?d < 1200000" by (simp add: SEARCH_TIMEOUT_MS_def)
  have cache: "convertPathCache (snd (snd (the ?s))) \<noteq> []"
    "files (last (convertPathCache (snd (snd (the ?s))))) = one_file"
    "map node (convertPathCache (snd (snd (the ?s)))) =
       [mkNode 9 h1 (mkFormat 2 ''a'' False True), mkNode 10 h2 (mkFormat 4 ''x'' False True)]"
    by code_simp+
  have first: "fst (buildConvertPath (3 + Suc 0) env1c one_file target1 [[input1]] (Some ?d) router1)
     = Some (Found one_file [mkNode 9 h1 (mkFormat 2 ''a'' False True),
                             mkNode 10 h2 (mkFormat 4 ''x'' False True)])"
    unfolding C4_deadline_behaviour [OF steps d clock, of 0] using late cache by simp
  let ?st = "router1\<lparr>world := 2\<rparr>"
  have steps0: "bfs_steps 0 env1c one_file target1 (Some ?d) [[input1]] False
                  (?st\<lparr>convertPathCache := []\<rparr>) = Some ([input1] # [], False, ?st\<lparr>convertPathCache := []\<rparr>)"
    by simp
  have clock0: "date_now env1c (world (?st\<lparr>convertPathCache := []\<rparr>)) = (800000, 2)"
    by (simp add: env1c_def)
  have late0: "?d < 800000" by (simp add: SEARCH_TIMEOUT_MS_def)
  have second: "fst (buildConvertPath (0 + Suc 0) env1c one_file target1 [[input1]] (Some ?d) ?st)
     = Some TIMEOUT_RESULT"
    unfolding C4_deadline_behaviour [OF steps0 d clock0, of 0] using late0 by simp
  let ?su = "router1\<lparr>world := 1\<rparr>"
  have steps1: "bfs_steps 0 env1c one_file target1 (Some ?d) [[input1]] False
                  (?su\<lparr>convertPathCache := []\<rparr>) = Some ([input1] # [], False, ?su\<lparr>convertPathCache := []\<rparr>)"
    by simp
  have clock1: "date_now env1c (world (?su\<lparr>convertPathCache := []\<rparr>)) = (400000, 1)"
    by (simp add: env1c_def)
  have early: "\<not> ?d < 400000" by (simp add: SEARCH_TIMEOUT_MS_def)
  have go: "fst (case process_path env1c one_file target1 [input1] [] False
                        (?su\<lparr>convertPathCache := [], world := 1\<rparr>) of
                   (Some r, queue', nested', st') \<Rightarrow> (Some r, st')
                 | (None, queue', nested', st') \<Rightarrow>
                     bfs_loop 0 env1c one_file target1 (Some ?d) queue' nested' st') = None"
    by code_simp
  have third: "fst (buildConvertPath (0 + Suc 0) env1c one_file target1 [[input1]] (Some ?d) ?su) = None"
    unfolding C4_deadline_behaviour [OF steps1 d clock1, of 0] using early go by simp
  have n: "3 + Suc 0 = 4" "0 + Suc 0 = 1" by simp_all
  from first second third show ?thesis unfolding n by simp
qed

section \<open>The option pool\<close>

lemma push_options_Nil [simp]: "push_options h [] st = st"
  by (simp add: push_options_def)

lemma push_options_frame [simp]:
  "supportedFormatCache (push_options h fs st) = supportedFormatCache st"
  "option_pairs (allOptions (push_options h fs st)) = option_pairs (allOptions st) @ map (Pair h) fs"
  by (auto simp: push_options_def option_pairs_def enumerate_eq_zip map_zip_map2 intro: nth_equalityI)

lemma ensure_cached_frame:
  "ensure_cached E h st = (b, st1) \<Longrightarrow>
     allOptions st1 = allOptions st \<and> next_nid st1 = next_nid st \<and>
     (\<forall>n. n \<noteq> handler_name h \<longrightarrow> supportedFormatCache st1 n = supportedFormatCache st n)"
  by (auto simp: ensure_cached_def Let_def split: option.splits prod.splits if_splits)

lemma ensure_cached_False:
  "ensure_cached E h st = (False, st1) \<Longrightarrow> supportedFormatCache st1 (handler_name h) = None"
  by (auto simp: ensure_cached_def Let_def split: option.splits prod.splits if_splits)

lemma buildOptionList_loop_cache:
  "n \<notin> handler_name ` set hs \<Longrightarrow>
     supportedFormatCache (buildOptionList_loop E hs st) n = supportedFormatCache st n"
proof (induction hs arbitrary: st)
  case Nil
  then show ?case by simp
next
  case (Cons h hs)
  obtain b st1 where e: "ensure_cached E h st = (b, st1)" by (cases "ensure_cached E h st")
  with Cons ensure_cached_frame[OF e] show ?case by (cases b) auto
qed

lemma handler_options_cong:
  "supportedFormatCache st (handler_name h) = supportedFormatCache st' (handler_name h) \<Longrightarrow>
     handler_options st h = handler_options st' h"
  by (simp add: handler_options_def)

lemma buildOptionList_loop_options:
  "distinct (map handler_name hs) \<Longrightarrow>
     option_pairs (allOptions (buildOptionList_loop E hs st)) =
       option_pairs (allOptions st) @
       concat (map (\<lambda>h. map (Pair h) (handler_options (buildOptionList_loop E hs st) h)) hs)"
proof (induction hs arbitrary: st)
  case Nil
  then show ?case by simp
next
  case (Cons h hs)
  from Cons.prems have nin: "handler_name h \<notin> handler_name ` set hs" and dist: "distinct (map handler_name hs)"
    by auto
  obtain b st1 where e: "ensure_cached E h st = (b, st1)" by (cases "ensure_cached E h st")
  note fr = ensure_cached_frame[OF e]
  show ?case
  proof (cases b)
    case False
    with e have loop: "buildOptionList_loop E (h # hs) st = buildOptionList_loop E hs st1" by simp
    have "supportedFormatCache (buildOptionList_loop E hs st1) (handler_name h) = None"
      using buildOptionList_loop_cache[OF nin] ensure_cached_False e False by metis
    then have "handler_options (buildOptionList_loop E hs st1) h = []"
      by (simp add: handler_options_def)
    with Cons.IH[OF dist, of st1] loop fr show ?thesis by simp
  next
    case True
    let ?st2 = "push_options h (handler_options st1 h) st1"
    from True e have loop: "buildOptionList_loop E (h # hs) st = buildOptionList_loop E hs ?st2" by simp
    have "supportedFormatCache (buildOptionList_loop E hs ?st2) (handler_name h) = supportedFormatCache st1 (handler_name h)"
      using buildOptionList_loop_cache[OF nin, of E ?st2] by simp
    then have "handler_options (buildOptionList_loop E hs ?st2) h = handler_options st1 h"
      by (rule handler_options_cong)
    with Cons.IH[OF dist, of ?st2] loop fr show ?thesis by simp
  qed
qed

text \<open>
  A run that is resumed every time before anything else happens is the loop without
  interruption.
\<close>

lemma build_from_loop:
  "build_from hs st = (r, st1) \<Longrightarrow>
     (case r of
        None \<Rightarrow> buildOptionList_loop E hs st = st1
      | Some b \<Rightarrow>
          supportedFormatCache st1 (handler_name (awaited b)) = None \<and>
          length (todo b) < length hs \<and>
          buildOptionList_loop E hs st = buildOptionList_loop E (awaited b # todo b) st1)"
proof (induction hs arbitrary: st)
  case Nil
  then show ?case by simp
next
  case (Cons h hs)
  show ?case
  proof (cases "supportedFormatCache st (handler_name h)")
    case None
    with Cons.prems show ?thesis by auto
  next
    case (Some fs)
    let ?st2 = "push_options h (handler_options st h) st"
    from Some Cons.prems have run: "build_from hs ?st2 = (r, st1)" by simp
    from Some have loop: "buildOptionList_loop E (h # hs) st = buildOptionList_loop E hs ?st2"
      by (simp add: ensure_cached_def)
    from Cons.IH[OF run] loop show ?thesis by (auto split: option.splits)
  qed
qed

lemma build_resume_loop:
  assumes "supportedFormatCache st (handler_name (awaited b)) = None"
    and "build_resume E b st = (r, st1)"
  shows "case r of
           None \<Rightarrow> buildOptionList_loop E (awaited b # todo b) st = st1
         | Some b' \<Rightarrow>
             supportedFormatCache st1 (handler_name (awaited b')) = None \<and>
             length (todo b') < length (todo b) \<and>
             buildOptionList_loop E (awaited b # todo b) st = buildOptionList_loop E (awaited b' # todo b') st1"
proof -
  let ?h = "awaited b"
  obtain ok w' where i: "init E (world st) ?h = (ok, w')" by (cases "init E (world st) ?h")
  let ?st1 = "st\<lparr>world := w', events := events st @ [InitCall ?h ok]\<rparr>"
  show ?thesis
  proof (cases ok)
    case False
    with i assms(2) have run: "build_from (todo b) ?st1 = (r, st1)" by (simp add: build_resume_def)
    from False i assms(1) have "buildOptionList_loop E (?h # todo b) st = buildOptionList_loop E (todo b) ?st1"
      by (simp add: ensure_cached_def)
    with build_from_loop[OF run, of E] show ?thesis by (auto split: option.splits)
  next
    case True
    with i have i': "init E (world st) ?h = (True, w')" by simp
    let ?s1 = "st\<lparr>world := w', events := events st @ [InitCall ?h True]\<rparr>"
    let ?st2 = "case supportedFormats E w' ?h of
                  None \<Rightarrow> ?s1
                | Some fs \<Rightarrow> ?s1\<lparr>supportedFormatCache := (supportedFormatCache ?s1)(handler_name ?h := Some fs)\<rparr>"
    let ?st3 = "push_options ?h (handler_options ?st2 ?h) ?st2"
    from i' assms(2) have run: "build_from (todo b) ?st3 = (r, st1)"
      by (simp add: build_resume_def Let_def)
    from i' assms(1) have "ensure_cached E ?h st = (True, ?st2)"
      by (simp add: ensure_cached_def split: option.splits)
    then have "buildOptionList_loop E (?h # todo b) st = buildOptionList_loop E (todo b) ?st3" by simp
    with build_from_loop[OF run, of E] show ?thesis by (auto split: option.splits)
  qed
qed

lemma idle_page:
  "builds pg = [] \<Longrightarrow> page_run E (replicate n (InitSettled 0)) pg = pg"
  by (induction n) simp_all

lemma lone_run:
  "supportedFormatCache st (handler_name (awaited b)) = None \<Longrightarrow> length (todo b) < n \<Longrightarrow>
     page_run E (replicate n (InitSettled 0)) \<lparr>router = st, builds = [b]\<rparr> =
       \<lparr>router = buildOptionList_loop E (awaited b # todo b) st, builds = []\<rparr>"
proof (induction n arbitrary: b st)
  case 0
  then show ?case by simp
next
  case (Suc n)
  obtain r st1 where res: "build_resume E b st = (r, st1)" by (cases "build_resume E b st")
  note l = build_resume_loop[OF Suc.prems(1) res]
  show ?case
  proof (cases r)
    case None
    with res have "page_step E (InitSettled 0) \<lparr>router = st, builds = [b]\<rparr> = \<lparr>router = st1, builds = []\<rparr>"
      by simp
    with None l idle_page[of "\<lparr>router = st1, builds = []\<rparr>" E n] show ?thesis by simp
  next
    case (Some b')
    with res have st: "page_step E (InitSettled 0) \<lparr>router = st, builds = [b]\<rparr> = \<lparr>router = st1, builds = [b']\<rparr>"
      by simp
    from Some l Suc.prems(2) have "supportedFormatCache st1 (handler_name (awaited b')) = None"
      "length (todo b') < n" by simp_all
    from Suc.IH[OF this] Some l st show ?thesis by simp
  qed
qed

lemma buildOptionList_alone:
  assumes "builds pg = []" and "length (handlers E) \<le> n"
  shows "page_run E (replicate n (InitSettled 0)) (buildOptionList_start E pg) =
           \<lparr>router = buildOptionList_loop E (handlers E) ((router pg)\<lparr>allOptions := []\<rparr>), builds = []\<rparr>"
proof -
  let ?st0 = "(router pg)\<lparr>allOptions := []\<rparr>"
  obtain r st1 where res: "build_from (handlers E) ?st0 = (r, st1)"
    by (cases "build_from (handlers E) ?st0")
  note l = build_from_loop[OF res, of E]
  show ?thesis
  proof (cases r)
    case None
    with res assms(1) have "buildOptionList_start E pg = \<lparr>router = st1, builds = []\<rparr>"
      by (simp add: buildOptionList_start_def)
    with None l idle_page[of "\<lparr>router = st1, builds = []\<rparr>" E n] show ?thesis by simp
  next
    case (Some b)
    with res assms(1) have st: "buildOptionList_start E pg = \<lparr>router = st1, builds = [b]\<rparr>"
      by (simp add: buildOptionList_start_def)
    from Some l assms(2) have "supportedFormatCache st1 (handler_name (awaited b)) = None"
      "length (todo b) < n" by simp_all
    from lone_run[OF this] Some l st show ?thesis by simp
  qed
qed

text \<open>Whatever runs overlap, only formats with a mime are pushed.\<close>

lemma push_options_mime:
  "list_all (\<lambda>opt. mime_set (node_format opt)) (allOptions st) \<Longrightarrow>
     list_all (\<lambda>opt. mime_set (node_format opt)) (allOptions (push_options h (handler_options st' h) st))"
  by (auto simp: push_options_def handler_options_def list_all_iff enumerate_eq_zip
           split: option.splits dest!: set_zip_rightD)

lemma build_from_mime:
  "list_all (\<lambda>opt. mime_set (node_format opt)) (allOptions st) \<Longrightarrow> build_from hs st = (r, st1) \<Longrightarrow>
     list_all (\<lambda>opt. mime_set (node_format opt)) (allOptions st1)"
proof (induction hs arbitrary: st)
  case Nil
  then show ?case by simp
next
  case (Cons h hs)
  show ?case
  proof (cases "supportedFormatCache st (handler_name h)")
    case None
    with Cons.prems show ?thesis by auto
  next
    case (Some fs)
    with Cons.prems(2) have "build_from hs (push_options h (handler_options st h) st) = (r, st1)" by simp
    from Cons.IH[OF push_options_mime[OF Cons.prems(1)] this] show ?thesis .
  qed
qed

lemma build_resume_mime:
  assumes "list_all (\<lambda>opt. mime_set (node_format opt)) (allOptions st)"
    and "build_resume E b st = (r, st1)"
  shows "list_all (\<lambda>opt. mime_set (node_format opt)) (allOptions st1)"
proof -
  let ?h = "awaited b"
  obtain ok w' where i: "init E (world st) ?h = (ok, w')" by (cases "init E (world st) ?h")
  let ?st1 = "st\<lparr>world := w', events := events st @ [InitCall ?h ok]\<rparr>"
  have m1: "list_all (\<lambda>opt. mime_set (node_format opt)) (allOptions ?st1)" using assms(1) by simp
  show ?thesis
  proof (cases ok)
    case False
    with i assms(2) have "build_from (todo b) ?st1 = (r, st1)" by (simp add: build_resume_def)
    from build_from_mime[OF m1 this] show ?thesis .
  next
    case True
    with i have i': "init E (world st) ?h = (True, w')" by simp
    let ?s1 = "st\<lparr>world := w', events := events st @ [InitCall ?h True]\<rparr>"
    let ?st2 = "case supportedFormats E w' ?h of
                  None \<Rightarrow> ?s1
                | Some fs \<Rightarrow> ?s1\<lparr>supportedFormatCache := (supportedFormatCache ?s1)(handler_name ?h := Some fs)\<rparr>"
    have m2: "list_all (\<lambda>opt. mime_set (node_format opt)) (allOptions ?st2)"
      using assms(1) by (simp split: option.splits)
    from i' assms(2) have "build_from (todo b) (push_options ?h (handler_options ?st2 ?h) ?st2) = (r, st1)"
      by (simp add: build_resume_def Let_def)
    from build_from_mime[OF push_options_mime[OF m2] this] show ?thesis .
  qed
qed

lemma buildOptionList_start_mime:
  "list_all (\<lambda>opt. mime_set (node_format opt)) (allOptions (router (buildOptionList_start E pg)))"
proof -
  let ?st0 = "(router pg)\<lparr>allOptions := []\<rparr>"
  obtain r st1 where res: "build_from (handlers E) ?st0 = (r, st1)"
    by (cases "build_from (handlers E) ?st0")
  have "list_all (\<lambda>opt. mime_set (node_format opt)) (allOptions ?st0)" by simp
  from build_from_mime[OF this res] res show ?thesis
    by (cases r) (simp_all add: buildOptionList_start_def)
qed

lemma page_step_mime:
  assumes "list_all (\<lambda>opt. mime_set (node_format opt)) (allOptions (router pg))"
  shows "list_all (\<lambda>opt. mime_set (node_format opt)) (allOptions (router (page_step E ev pg)))"
proof (cases ev)
  case (CacheLoaded c)
  then show ?thesis by (simp add: buildOptionList_start_mime)
next
  case ModeClick
  then show ?thesis by (simp add: buildOptionList_start_mime)
next
  case (InitSettled k)
  show ?thesis
  proof (cases "k < length (builds pg)")
    case False
    with InitSettled assms show ?thesis by simp
  next
    case True
    obtain r st1 where res: "build_resume E (builds pg ! k) (router pg) = (r, st1)"
      by (cases "build_resume E (builds pg ! k) (router pg)")
    from build_resume_mime[OF assms res] True InitSettled res show ?thesis
      by (cases r) simp_all
  qed
qed

lemma page_run_mime:
  "list_all (\<lambda>opt. mime_set (node_format opt)) (allOptions (router pg)) \<Longrightarrow>
     list_all (\<lambda>opt. mime_set (node_format opt)) (allOptions (router (page_run E evs pg)))"
  by (induction evs arbitrary: pg) (simp_all add: page_step_mime)

lemma mime_set_eq: "mime_set = (\<lambda>f. mime f \<noteq> None \<and> mime f \<noteq> Some [])"
  by (rule ext) (simp add: mime_set_def split: option.splits)

text \<open>
  Claim C9 as stated fails in two ways. buildOptionList has no filter on the flags: a
  format with a mime and neither flag becomes an option (here after a run that nothing
  interrupts). And the pool may hold an option more than once: a second run started by
  the mode toggle while the first awaits an init empties the pool, and afterwards both
  runs push the options of the same handler.
\<close>

theorem C9_pool_counterexample:
  "option_pairs (allOptions (router (page_run env9 [InitSettled 0, InitSettled 0]
                                       (buildOptionList_start env9 page9))))
     = [(h2, mkFormat 1 ''m'' False False), (h2, mkFormat 3 ''k'' True False)] \<and>
   \<not> from_flag (mkFormat 1 ''m'' False False) \<and> \<not> to_flag (mkFormat 1 ''m'' False False) \<and>
   distinct (map handler_name (handlers env9)) \<and>
   option_pairs (allOptions (router
       (page_run env9 [CacheLoaded None, ModeClick, InitSettled 0, InitSettled 1,
                       InitSettled 0, InitSettled 0]
          (page_init env9 0 (\<lambda>k. None)))))
     = [(h2, mkFormat 1 ''m'' False False), (h2, mkFormat 3 ''k'' True False),
        (h2, mkFormat 1 ''m'' False False), (h2, mkFormat 3 ''k'' True False)]"
  by code_simp

text \<open>
  Claim C9, amended. Take a run of buildOptionList that no other run overlaps: it starts
  when no run is suspended, and every init it awaits settles before anything else
  happens. When the handlers have distinct names the run ends and leaves in the pool,
  handler by handler and format by format in order, exactly one option for every format
  with a mime in the format cache entry of the handler, whatever the flags of the
  format; a handler without a cache entry (its init was rejected, or left no list)
  contributes nothing. And whatever runs overlap, from the start of a run on every
  option of the pool has a mime.
\<close>

theorem C9_option_pool:
  assumes "distinct (map handler_name (handlers E))"
    and "builds pg = []"
    and "length (handlers E) \<le> n"
  shows "builds (page_run E (replicate n (InitSettled 0)) (buildOptionList_start E pg)) = [] \<and>
         option_pairs (allOptions (router (page_run E (replicate n (InitSettled 0))
                                             (buildOptionList_start E pg)))) =
           concat (map (\<lambda>h. map (Pair h)
              (case supportedFormatCache (router (page_run E (replicate n (InitSettled 0))
                                                    (buildOptionList_start E pg))) (handler_name h) of
                 None \<Rightarrow> []
               | Some fs \<Rightarrow> filter (\<lambda>f. mime f \<noteq> None \<and> mime f \<noteq> Some []) fs)) (handlers E)) \<and>
         (\<forall>evs. list_all (\<lambda>opt. mime (node_format opt) \<noteq> None \<and> mime (node_format opt) \<noteq> Some [])
                  (allOptions (router (page_run E evs (buildOptionList_start E pg)))))"
proof -
  let ?st0 = "(router pg)\<lparr>allOptions := []\<rparr>"
  let ?pg = "page_run E (replicate n (InitSettled 0)) (buildOptionList_start E pg)"
  from buildOptionList_alone[OF assms(2,3)] have
    pg: "?pg = \<lparr>router = buildOptionList_loop E (handlers E) ?st0, builds = []\<rparr>" .
  have ho: "handler_options st h =
      (case supportedFormatCache st (handler_name h) of
         None \<Rightarrow> []
       | Some fs \<Rightarrow> filter (\<lambda>f. mime f \<noteq> None \<and> mime f \<noteq> Some []) fs)" for st :: "'a router" and h
    by (simp add: handler_options_def mime_set_eq split: option.splits)
  have one: "builds ?pg = []" unfolding pg by simp
  have two: "option_pairs (allOptions (router ?pg)) =
           concat (map (\<lambda>h. map (Pair h)
              (case supportedFormatCache (router ?pg) (handler_name h) of
                 None \<Rightarrow> []
               | Some fs \<Rightarrow> filter (\<lambda>f. mime f \<noteq> None \<and> mime f \<noteq> Some []) fs)) (handlers E))"
    unfolding pg using buildOptionList_loop_options[OF assms(1), of E ?st0]
    by (simp add: ho option_pairs_def)
  have three: "list_all (\<lambda>opt. mime (node_format opt) \<noteq> None \<and> mime (node_format opt) \<noteq> Some [])
                  (allOptions (router (page_run E evs (buildOptionList_start E pg))))" for evs
    using page_run_mime[OF buildOptionList_start_mime, of E evs E pg]
    by (simp add: mime_set_eq)
  from one two three show ?thesis by blast
qed

theorem C9_option_pool_witness:
  "distinct (map handler_name (handlers env9)) \<and> builds page9 = [] \<and>
   option_pairs (allOptions (router (page_run env9 (replicate 2 (InitSettled 0))
                                       (buildOptionList_start env9 page9))))
     = [(h2, mkFormat 1 ''m'' False False), (h2, mkFormat 3 ''k'' True False)] \<and>
   supportedFormatCache (router (page_run env9 (replicate 2 (InitSettled 0))
                                   (buildOptionList_start env9 page9))) ''h1'' = None \<and>
   supportedFormatCache (router (page_run env9 (replicate 2 (InitSettled 0))
                                   (buildOptionList_start env9 page9))) ''h2'' = Some formats9"
proof -
  let ?pg = "page_run env9 (replicate 2 (InitSettled 0)) (buildOptionList_start env9 page9)"
  have d: "distinct (map handler_name (handlers env9))" by code_simp
  have b: "builds page9 = []" by (simp add: page9_def)
  have n: "length (handlers env9) \<le> 2" by (simp add: env9_def)
  have c: "supportedFormatCache (router ?pg) ''h1'' = None"
          "supportedFormatCache (router ?pg) ''h2'' = Some formats9" by code_simp+
  have rhs: "concat (map (\<lambda>h. map (Pair h)
              (case supportedFormatCache (router ?pg) (handler_name h) of
                 None \<Rightarrow> []
               | Some fs \<Rightarrow> filter (\<lambda>f. mime f \<noteq> None \<and> mime f \<noteq> Some []) fs)) (handlers env9))
     = [(h2, mkFormat 1 ''m'' False False), (h2, mkFormat 3 ''k'' True False)]"
    by code_simp
  from C9_option_pool[OF d b n] have
    "option_pairs (allOptions (router ?pg)) =
           concat (map (\<lambda>h. map (Pair h)
              (case supportedFormatCache (router ?pg) (handler_name h) of
                 None \<Rightarrow> []
               | Some fs \<Rightarrow> filter (\<lambda>f. mime f \<noteq> None \<and> mime f \<noteq> Some []) fs)) (handlers env9))"
    by blast
  then have "option_pairs (allOptions (router ?pg))
     = [(h2, mkFormat 1 ''m'' False False), (h2, mkFormat 3 ''k'' True False)]"
    by (rule trans[OF _ rhs])
  with d b c show ?thesis by (intro conjI)
qed

section \<open>Adjacency and the input format lookup\<close>

lemma adjacent_snoc:
  "p \<noteq> [] \<Longrightarrow> adjacent st (p @ [c]) =
     (adjacent st p \<and> declares_from st (handler c) (mime (node_format (last p))))"
proof (induction st p rule: adjacent.induct)
  case (1 st' a b rest)
  then show ?case by auto
qed simp_all

lemma adjacent_nth:
  "adjacent st p \<Longrightarrow> Suc i < length p \<Longrightarrow>
     declares_from st (handler (p ! Suc i)) (mime (node_format (p ! i)))"
proof (induction st p arbitrary: i rule: adjacent.induct)
  case (1 st' a b rest)
  then show ?case by (cases i) auto
qed simp_all

lemma declares_from_cong:
  "supportedFormatCache st' = supportedFormatCache st \<Longrightarrow> declares_from st' = declares_from st"
  by (auto simp: declares_from_def fun_eq_iff)

lemma declares_from_Some:
  "supportedFormatCache st (handler_name h) = Some fs \<Longrightarrow>
     declares_from st h m = list_ex (\<lambda>f. mime f = m \<and> from_flag f) fs"
  by (simp add: declares_from_def)

lemma lookupInput_None:
  "lookupInput fs prev = None \<longleftrightarrow> \<not> list_ex (\<lambda>f. mime f = mime prev \<and> from_flag f) fs"
  by (auto simp: lookupInput_def find_None_iff list_ex_iff)

lemma ready_formats_same_from:
  assumes "from_mimes_agree E st0" and "declares_from st = declares_from st0"
    and "ready_formats E h st = (r, st')"
  shows "declares_from st' = declares_from st0 \<and>
         conversionsFromAnyInput st' = conversionsFromAnyInput st \<and>
         convertPathCache st' = convertPathCache st \<and>
         (\<forall>fs m. r = Some (Some fs) \<longrightarrow>
            list_ex (\<lambda>f. mime f = m \<and> from_flag f) fs = declares_from st0 h m) \<and>
         (\<exists>evs. events st' = events st @ evs \<and> list_all (\<lambda>e. \<not> is_convert e \<and> \<not> is_attempt e) evs)"
proof (cases "ready E (world st) h")
  case True
  with assms(3) have st': "st' = st" and r: "r = Some (supportedFormatCache st (handler_name h))"
    by (auto simp: ready_formats_def)
  have "list_ex (\<lambda>f. mime f = m \<and> from_flag f) fs = declares_from st0 h m"
    if "r = Some (Some fs)" for fs m
  proof -
    from that r have "supportedFormatCache st (handler_name h) = Some fs" by auto
    then have "declares_from st h m = list_ex (\<lambda>f. mime f = m \<and> from_flag f) fs"
      by (rule declares_from_Some)
    with assms(2) show ?thesis by simp
  qed
  with st' assms(2) show ?thesis by auto
next
  case False
  obtain ok w' where i: "init E (world st) h = (ok, w')" by (cases "init E (world st) h")
  show ?thesis
  proof (cases "ok \<and> supportedFormats E w' h \<noteq> None")
    case False
    with \<open>\<not> ready E (world st) h\<close> i assms(3)
    have "supportedFormatCache st' = supportedFormatCache st"
         "conversionsFromAnyInput st' = conversionsFromAnyInput st"
         "convertPathCache st' = convertPathCache st"
         "events st' = events st @ [InitCall h ok]"
         "r = None \<or> r = Some (supportedFormatCache st (handler_name h))"
      by (auto simp: ready_formats_def Let_def split: if_splits option.splits)
    note f = this
    have "list_ex (\<lambda>f. mime f = m \<and> from_flag f) fs = declares_from st0 h m"
      if "r = Some (Some fs)" for fs m
    proof -
      from that f(5) have "supportedFormatCache st (handler_name h) = Some fs" by auto
      then have "declares_from st h m = list_ex (\<lambda>f. mime f = m \<and> from_flag f) fs"
        by (rule declares_from_Some)
      with assms(2) show ?thesis by simp
    qed
    with f assms(2) declares_from_cong[of st' st] show ?thesis by auto
  next
    case True
    then obtain fs where fs: "supportedFormats E w' h = Some fs" and ok: ok by auto
    with \<open>\<not> ready E (world st) h\<close> i assms(3)
    have st': "supportedFormatCache st' = (supportedFormatCache st)(handler_name h := Some fs)"
         "conversionsFromAnyInput st' = conversionsFromAnyInput st"
         "convertPathCache st' = convertPathCache st"
         "events st' = events st @ [InitCall h ok]"
         "r = Some (Some fs)"
      by (auto simp: ready_formats_def Let_def)
    from i ok have i': "init E (world st) h = (True, w')" by simp
    from assms(1) fs i' \<open>\<not> ready E (world st) h\<close>
    have ag: "\<And>m. list_ex (\<lambda>f. mime f = m \<and> from_flag f) fs = declares_from st0 h m"
      unfolding from_mimes_agree_def by blast
    have "declares_from st' g m = declares_from st0 g m" for g m
    proof (cases "handler_name g = handler_name h")
      case True
      then have "declares_from st' g m = list_ex (\<lambda>f. mime f = m \<and> from_flag f) fs"
        by (simp add: declares_from_def st')
      also have "\<dots> = declares_from st0 h m" by (rule ag)
      also have "\<dots> = declares_from st h m" using assms(2) by simp
      also have "\<dots> = declares_from st g m" using True by (simp add: declares_from_def)
      finally show ?thesis using assms(2) by simp
    next
      case False
      then have "declares_from st' g m = declares_from st g m" by (simp add: declares_from_def st')
      with assms(2) show ?thesis by simp
    qed
    then have "declares_from st' = declares_from st0" by (simp add: fun_eq_iff)
    with st' ag show ?thesis by auto
  qed
qed


lemma attempt_hop_ok:
  assumes agree: "from_mimes_agree E st0" and same: "declares_from st = declares_from st0"
    and i: "Suc i < length p"
    and run: "attempt_hop E p i fls st = (r, st')"
  shows "declares_from st' = declares_from st0 \<and>
         conversionsFromAnyInput st' = conversionsFromAnyInput st \<and>
         (\<exists>evs. events st' = events st @ evs \<and> (\<forall>e \<in> set evs. hop_event st0 p e))"
proof -
  let ?h = "handler (p ! Suc i)"
  obtain rf st1 where rf: "ready_formats E ?h st = (rf, st1)" by (cases "ready_formats E ?h st")
  from ready_formats_same_from[OF agree same rf] obtain evs1 where
    s1: "declares_from st1 = declares_from st0" "conversionsFromAnyInput st1 = conversionsFromAnyInput st"
    and fsP: "\<And>fs m. rf = Some (Some fs) \<Longrightarrow>
            list_ex (\<lambda>f. mime f = m \<and> from_flag f) fs = declares_from st0 ?h m"
    and e1: "events st1 = events st @ evs1" "list_all (\<lambda>e. \<not> is_convert e \<and> \<not> is_attempt e) evs1"
    by blast
  have q1: "\<forall>e \<in> set evs1. hop_event st0 p e"
  proof
    fix e assume "e \<in> set evs1"
    with e1(2) have "\<not> is_convert e \<and> \<not> is_attempt e" by (simp add: list_all_iff)
    then show "hop_event st0 p e" by (cases e) auto
  qed
  show ?thesis
  proof (cases rf)
    case None
    with rf run have "st' = st1" by (simp add: attempt_hop_def)
    with s1 e1 q1 show ?thesis by auto
  next
    case (Some fso)
    show ?thesis
    proof (cases fso)
      case None
      with Some rf run have "st' = st1" by (simp add: attempt_hop_def)
      with s1 e1 q1 show ?thesis by auto
    next
      case (Some fs)
      let ?inF = "lookupInput fs (node_format (p ! i))"
      let ?outF = "node_format (p ! Suc i)"
      obtain res w2 where dc: "doConvert E (world st1) ?h fls ?inF ?outF = (res, w2)"
        by (cases "doConvert E (world st1) ?h fls ?inF ?outF")
      from Some \<open>rf = Some fso\<close> rf run dc have st':
        "supportedFormatCache st' = supportedFormatCache st1"
        "conversionsFromAnyInput st' = conversionsFromAnyInput st1"
        "events st' = events st1 @ [ConvertCall ?h fls ?inF ?outF]"
        by (auto simp: attempt_hop_def Let_def split: option.splits if_splits)
      have "case ?inF of
              None \<Rightarrow> \<not> declares_from st0 ?h (mime (node_format (p ! i)))
            | Some f \<Rightarrow> from_flag f \<and> mime f = mime (node_format (p ! i))"
      proof (cases ?inF)
        case None
        then have "\<not> list_ex (\<lambda>f. mime f = mime (node_format (p ! i)) \<and> from_flag f) fs"
          by (simp add: lookupInput_None)
        with fsP[of fs "mime (node_format (p ! i))"] Some \<open>rf = Some fso\<close>
        have "\<not> declares_from st0 ?h (mime (node_format (p ! i)))" by simp
        with None show ?thesis by simp
      next
        case (Some f)
        then have "from_flag f \<and> mime f = mime (node_format (p ! i))"
          by (auto simp: lookupInput_def find_Some_iff)
        with Some show ?thesis by simp
      qed
      with i have "hop_event st0 p (ConvertCall ?h fls ?inF ?outF)"
        by (auto intro!: exI[of _ i])
      with q1 st' e1 s1 declares_from_cong[OF st'(1)] show ?thesis by auto
    qed
  qed
qed

lemma attempt_from_ok:
  "from_mimes_agree E st0 \<Longrightarrow> declares_from st = declares_from st0 \<Longrightarrow>
     attempt_from E p i fls st = (r, st') \<Longrightarrow>
         declares_from st' = declares_from st0 \<and>
         conversionsFromAnyInput st' = conversionsFromAnyInput st \<and>
         (\<exists>evs. events st' = events st @ evs \<and> (\<forall>e \<in> set evs. hop_event st0 p e))"
proof (induction E p i fls st rule: attempt_from.induct)
  case (1 E p i fls st)
  show ?case
  proof (cases "i + 1 < length p")
    case False
    with "1.prems" show ?thesis by (simp add: attempt_from.simps)
  next
    case True
    obtain ro st1 where hop: "attempt_hop E p i fls st = (ro, st1)" by (cases "attempt_hop E p i fls st")
    from True have i: "Suc i < length p" by simp
    from attempt_hop_ok[OF "1.prems"(1,2) i hop] obtain evs1 where
      h1: "declares_from st1 = declares_from st0" "conversionsFromAnyInput st1 = conversionsFromAnyInput st"
          "events st1 = events st @ evs1" "\<forall>e \<in> set evs1. hop_event st0 p e" by blast
    show ?thesis
    proof (cases ro)
      case None
      with True hop "1.prems" have "st' = st1" by (simp add: attempt_from.simps)
      with h1 show ?thesis by auto
    next
      case (Some out)
      with True hop "1.prems" have "attempt_from E p (Suc i) out st1 = (r, st')"
        by (simp add: attempt_from.simps)
      from "1.IH"[OF True hop[symmetric] _ "1.prems"(1) h1(1) this] Some obtain evs2 where
        "declares_from st' = declares_from st0" "conversionsFromAnyInput st' = conversionsFromAnyInput st1"
        "events st' = events st1 @ evs2" "\<forall>e \<in> set evs2. hop_event st0 p e" by auto
      with h1 show ?thesis by auto
    qed
  qed
qed

lemma attemptConvertPath_ok:
  assumes "from_mimes_agree E st0" and "declares_from st = declares_from st0"
    and "attemptConvertPath E fls p st = (r, st')"
  shows "declares_from st' = declares_from st0 \<and>
         conversionsFromAnyInput st' = conversionsFromAnyInput st \<and>
         (\<exists>evs. events st' = events st @ evs \<and> (\<forall>e \<in> set evs. hop_event st0 p e))"
proof (cases "convertPathCache st")
  case Nil
  with assms(3) have "attempt_from E p 0 fls st = (r, st')" by (simp add: attemptConvertPath_def)
  from attempt_from_ok[OF assms(1,2) this] show ?thesis .
next
  case (Cons a list)
  with assms(3) have "attempt_from E p (length (convertPathCache st))
      (files (last (convertPathCache st))) st = (r, st')" by (simp add: attemptConvertPath_def)
  from attempt_from_ok[OF assms(1,2) this] show ?thesis .
qed

lemma hop_event_ok:
  assumes "hop_event st0 p e"
    and "adjacent st0 p \<or> (\<exists>c \<in> set (conversionsFromAnyInput st0). p = [inOpt, c])"
  shows "ok_event st0 inOpt e"
proof (cases e)
  case (ConvertCall h fls inF outF)
  with assms(1) obtain i where
    i: "Suc i < length p" "h = handler (p ! Suc i)" "outF = node_format (p ! Suc i)"
    and c: "case inF of
             None \<Rightarrow> \<not> declares_from st0 h (mime (node_format (p ! i)))
           | Some f \<Rightarrow> from_flag f \<and> mime f = mime (node_format (p ! i))" by auto
  show ?thesis
  proof (cases inF)
    case (Some f)
    with c ConvertCall show ?thesis by simp
  next
    case None
    with c have "\<not> declares_from st0 h (mime (node_format (p ! i)))" by simp
    with i adjacent_nth[of st0 p i] have "\<not> adjacent st0 p" by auto
    with assms(2) obtain c where c: "c \<in> set (conversionsFromAnyInput st0)" "p = [inOpt, c]" by auto
    with i have "i = 0" by simp
    with i c ConvertCall show ?thesis by auto
  qed
next
  case (PathAttempt q)
  with assms(1) show ?thesis by simp
qed simp_all

lemma try_candidates_ok:
  assumes agree: "from_mimes_agree E st0"
    and anyc: "conversionsFromAnyInput st = conversionsFromAnyInput st0"
  shows "declares_from st = declares_from st0 \<Longrightarrow>
         \<forall>c \<in> set cs. adjacent st0 (path @ [c]) \<or>
            (\<exists>c' \<in> set (conversionsFromAnyInput st0). path @ [c] = [inOpt, c']) \<Longrightarrow>
         try_candidates E fls path cs st = (r, st') \<Longrightarrow>
         declares_from st' = declares_from st0 \<and>
         conversionsFromAnyInput st' = conversionsFromAnyInput st \<and>
         (\<exists>evs. events st' = events st @ evs \<and> (\<forall>e \<in> set evs. ok_event st0 inOpt e))"
  using anyc
proof (induction cs arbitrary: st)
  case Nil
  then show ?case by simp
next
  case (Cons c cs)
  let ?st0 = "st\<lparr>events := events st @ [PathAttempt (path @ [c])]\<rparr>"
  have same0: "declares_from ?st0 = declares_from st0"
    using Cons.prems(1) declares_from_cong[of ?st0 st] by simp
  obtain ro st1 where a: "attemptConvertPath E fls (path @ [c]) ?st0 = (ro, st1)"
    by (cases "attemptConvertPath E fls (path @ [c]) ?st0")
  from attemptConvertPath_ok[OF agree same0 a] obtain evs1 where
    h1: "declares_from st1 = declares_from st0" "conversionsFromAnyInput st1 = conversionsFromAnyInput st"
        "events st1 = events st @ [PathAttempt (path @ [c])] @ evs1"
        "\<forall>e \<in> set evs1. hop_event st0 (path @ [c]) e" by auto
  from Cons.prems(2) have okc: "adjacent st0 (path @ [c]) \<or>
            (\<exists>c' \<in> set (conversionsFromAnyInput st0). path @ [c] = [inOpt, c'])" by simp
  then have okp: "ok_event st0 inOpt (PathAttempt (path @ [c]))" by simp
  from h1(4) okc have ok1: "\<forall>e \<in> set evs1. ok_event st0 inOpt e"
    by (blast intro: hop_event_ok)
  show ?case
  proof (cases ro)
    case (Some x)
    with a Cons.prems(3) have "st' = st1" by simp
    with h1 okp ok1 show ?thesis by auto
  next
    case None
    with a Cons.prems(3) have run: "try_candidates E fls path cs st1 = (r, st')" by simp
    from Cons.prems(2) have cs: "\<forall>c \<in> set cs. adjacent st0 (path @ [c]) \<or>
            (\<exists>c' \<in> set (conversionsFromAnyInput st0). path @ [c] = [inOpt, c'])" by simp
    from h1(2) Cons.prems(4) have any1: "conversionsFromAnyInput st1 = conversionsFromAnyInput st0" by simp
    from Cons.IH[OF h1(1) cs run any1] obtain evs2 where
      "declares_from st' = declares_from st0" "conversionsFromAnyInput st' = conversionsFromAnyInput st1"
      "events st' = events st1 @ evs2" "\<forall>e \<in> set evs2. ok_event st0 inOpt e" by auto
    with h1 okp ok1 show ?thesis by auto
  qed
qed


lemma validHandlers_declares:
  "validHandlers E st path = Some valid \<Longrightarrow> path \<noteq> [] \<Longrightarrow> h \<in> set valid \<Longrightarrow>
     declares_from st h (mime (node_format (last path)))"
  by (auto simp: validHandlers_def)

lemma validHandlers_nonempty: "path \<noteq> [] \<Longrightarrow> \<exists>valid. validHandlers E st path = Some valid"
  by (simp add: validHandlers_def)

lemma target_candidates_handler:
  "c \<in> set (target_candidates st valid target) \<Longrightarrow> handler c \<in> set valid"
  by (auto simp: target_candidates_def includes_handler_def split: if_splits)

lemma expansions_handler: "(h, f) \<in> set (expansions st valid path) \<Longrightarrow> h \<in> set valid"
  by (auto simp: expansions_def split: option.splits)

lemma push_all_mem:
  "q \<in> set (push_all n path hfs) \<Longrightarrow>
     \<exists>k h f. (h, f) \<in> set hfs \<and> q = path @ [\<lparr>nid = k, handler = h, node_format = f\<rparr>]"
  by (auto simp: push_all_def enumerate_eq_zip dest!: set_zip_rightD)

lemma process_path_ok:
  assumes agree: "from_mimes_agree E st0"
    and same: "declares_from st = declares_from st0"
    and anyc: "conversionsFromAnyInput st = conversionsFromAnyInput st0"
    and P: "path \<noteq> []" "adjacent st0 path"
    and Q: "\<forall>q \<in> set queue. q \<noteq> [] \<and> adjacent st0 q"
    and first: "\<not> nested \<longrightarrow> path = [inOpt]"
    and run: "process_path E fls target path queue nested st = (r, queue', nested', st')"
  shows "declares_from st' = declares_from st0 \<and>
         conversionsFromAnyInput st' = conversionsFromAnyInput st0 \<and>
         (\<forall>q \<in> set queue'. q \<noteq> [] \<and> adjacent st0 q) \<and>
         (r = None \<and> length path \<le> 5 \<longrightarrow> nested') \<and>
         (\<exists>evs. events st' = events st @ evs \<and> (\<forall>e \<in> set evs. ok_event st0 inOpt e))"
proof (cases "5 < length path")
  case True
  with run have "st' = st" "queue' = queue" by (auto simp: process_path_def)
  with same anyc Q True show ?thesis by auto
next
  case False
  let ?st1 = "st\<lparr>convertPathCache := realign path 1 (convertPathCache st)\<rparr>"
  have same1: "declares_from ?st1 = declares_from st0"
    using same declares_from_cong[of ?st1 st] by simp
  have any1: "conversionsFromAnyInput ?st1 = conversionsFromAnyInput st0" using anyc by simp
  from validHandlers_nonempty[OF P(1)] obtain valid where v: "validHandlers E ?st1 path = Some valid"
    by blast
  have vd: "\<And>h. h \<in> set valid \<Longrightarrow> declares_from st0 h (mime (node_format (last path)))"
    using validHandlers_declares[OF v P(1)] same1 by simp
  have ext: "adjacent st0 (path @ [c])" if "handler c \<in> set valid" for c
    using that vd P by (simp add: adjacent_snoc)
  obtain r2 st2 where t1: "try_candidates E fls path (target_candidates ?st1 valid target) ?st1 = (r2, st2)"
    by (cases "try_candidates E fls path (target_candidates ?st1 valid target) ?st1")
  have c1: "\<forall>c \<in> set (target_candidates ?st1 valid target). adjacent st0 (path @ [c]) \<or>
            (\<exists>c' \<in> set (conversionsFromAnyInput st0). path @ [c] = [inOpt, c'])"
    using ext target_candidates_handler by blast
  from try_candidates_ok[OF agree any1 same1 c1 t1] obtain evs1 where
    h2: "declares_from st2 = declares_from st0" "conversionsFromAnyInput st2 = conversionsFromAnyInput st0"
        "events st2 = events st @ evs1" "\<forall>e \<in> set evs1. ok_event st0 inOpt e"
    using any1 by auto
  show ?thesis
  proof (cases r2)
    case (Some a)
    with False v t1 run have "st' = st2" "queue' = queue" "r \<noteq> None"
      by (auto simp: process_path_def Let_def split: prod.splits)
    with h2 Q show ?thesis by auto
  next
    case None
    obtain r3 st3 where t2: "(if nested then (None, st2)
        else try_candidates E fls path (anyConversions st2 target) st2) = (r3, st3)"
      by (cases "(if nested then (None, st2)
        else try_candidates E fls path (anyConversions st2 target) st2)")
    have h3: "declares_from st3 = declares_from st0 \<and>
         conversionsFromAnyInput st3 = conversionsFromAnyInput st0 \<and>
         (\<exists>evs. events st3 = events st2 @ evs \<and> (\<forall>e \<in> set evs. ok_event st0 inOpt e))"
    proof (cases nested)
      case True
      with t2 have "st3 = st2" by simp
      with h2 show ?thesis by simp
    next
      case False
      with t2 have run2: "try_candidates E fls path (anyConversions st2 target) st2 = (r3, st3)"
        by simp
      from False first have pth: "path = [inOpt]" by simp
      have c2: "\<forall>c \<in> set (anyConversions st2 target). adjacent st0 (path @ [c]) \<or>
            (\<exists>c' \<in> set (conversionsFromAnyInput st0). path @ [c] = [inOpt, c'])"
        using pth h2(2) by (auto simp: anyConversions_def)
      from try_candidates_ok[OF agree h2(2) h2(1) c2 run2] h2(2) show ?thesis by auto
    qed
    then obtain evs2 where
      h3': "declares_from st3 = declares_from st0" "conversionsFromAnyInput st3 = conversionsFromAnyInput st0"
        "events st3 = events st2 @ evs2" "\<forall>e \<in> set evs2. ok_event st0 inOpt e" by blast
    show ?thesis
    proof (cases r3)
      case (Some a)
      with False v t1 None t2 run have "st' = st3" "queue' = queue" "r \<noteq> None"
        by (auto simp: process_path_def Let_def split: prod.splits)
      with h2 h3' Q show ?thesis by auto
    next
      case None
      let ?hfs = "expansions st3 valid path"
      from False v t1 \<open>r2 = None\<close> t2 None run have fin:
        "st' = st3\<lparr>next_nid := next_nid st3 + length ?hfs\<rparr>"
        "queue' = queue @ push_all (next_nid st3) path ?hfs" "nested'"
        by (auto simp: process_path_def Let_def split: prod.splits)
      have "q \<noteq> [] \<and> adjacent st0 q" if "q \<in> set (push_all (next_nid st3) path ?hfs)" for q
      proof -
        from push_all_mem[OF that] obtain k h f where
          "(h, f) \<in> set ?hfs" "q = path @ [\<lparr>nid = k, handler = h, node_format = f\<rparr>]" by blast
        with expansions_handler[of h f st3 valid path] ext[of "\<lparr>nid = k, handler = h, node_format = f\<rparr>"]
        show ?thesis by simp
      qed
      with Q fin have Q': "\<forall>q \<in> set queue'. q \<noteq> [] \<and> adjacent st0 q" by auto
      have "declares_from st' = declares_from st0"
        using h3'(1) fin(1) declares_from_cong[of st' st3] by simp
      with Q' fin h2 h3' show ?thesis by auto
    qed
  qed
qed

lemma deadline_exceeded_frame:
  "deadline_exceeded E d st = (b, st') \<Longrightarrow>
     events st' = events st \<and> supportedFormatCache st' = supportedFormatCache st \<and>
     conversionsFromAnyInput st' = conversionsFromAnyInput st \<and>
     convertPathCache st' = convertPathCache st \<and> next_nid st' = next_nid st"
  by (auto simp: deadline_exceeded_def split: option.splits if_splits prod.splits)

lemma bfs_loop_ok:
  "from_mimes_agree E st0 \<Longrightarrow> declares_from st = declares_from st0 \<Longrightarrow>
   conversionsFromAnyInput st = conversionsFromAnyInput st0 \<Longrightarrow>
   \<forall>q \<in> set queue. q \<noteq> [] \<and> adjacent st0 q \<Longrightarrow>
   \<not> nested \<longrightarrow> queue = [[inOpt]] \<Longrightarrow>
   bfs_loop n E fls target d queue nested st = (r, st') \<Longrightarrow>
   declares_from st' = declares_from st0 \<and>
   conversionsFromAnyInput st' = conversionsFromAnyInput st0 \<and>
   (\<exists>evs. events st' = events st @ evs \<and> (\<forall>e \<in> set evs. ok_event st0 inOpt e))"
proof (induction n E fls target d queue nested st rule: bfs_loop.induct)
  case (1 n E fls target d nested st)
  then show ?case by simp
next
  case (2 E fls target d p ps nested st)
  then show ?case by simp
next
  case (3 n E fls target d p ps nested st)
  obtain b st1 where dl: "deadline_exceeded E d st = (b, st1)" by (cases "deadline_exceeded E d st")
  note fr = deadline_exceeded_frame[OF dl]
  show ?case
  proof (cases b)
    case True
    with dl "3.prems"(6) have "st' = st1" by (simp add: bfs_iteration_def)
    with fr "3.prems"(2,3) declares_from_cong[of st1 st] show ?thesis by simp
  next
    case False
    obtain ro q' n' st2 where pp: "process_path E fls target p ps nested st1 = (ro, q', n', st2)"
      by (cases "process_path E fls target p ps nested st1") auto
    with False dl have it: "bfs_iteration E fls target d (p # ps) nested st = (ro, q', n', st2)"
      by (simp add: bfs_iteration_def)
    have same1: "declares_from st1 = declares_from st0"
      using "3.prems"(2) fr declares_from_cong[of st1 st] by simp
    have any1: "conversionsFromAnyInput st1 = conversionsFromAnyInput st0"
      using "3.prems"(3) fr by simp
    from "3.prems"(4) have P: "p \<noteq> []" "adjacent st0 p" and Q: "\<forall>q \<in> set ps. q \<noteq> [] \<and> adjacent st0 q"
      by auto
    from "3.prems"(5) have first: "\<not> nested \<longrightarrow> p = [inOpt]" by auto
    from process_path_ok[OF "3.prems"(1) same1 any1 P Q first pp] obtain evs1 where
      h: "declares_from st2 = declares_from st0" "conversionsFromAnyInput st2 = conversionsFromAnyInput st0"
         "\<forall>q \<in> set q'. q \<noteq> [] \<and> adjacent st0 q" "ro = None \<and> length p \<le> 5 \<longrightarrow> n'"
         "events st2 = events st1 @ evs1" "\<forall>e \<in> set evs1. ok_event st0 inOpt e" by blast
    show ?thesis
    proof (cases ro)
      case (Some a)
      with it "3.prems"(6) have "st' = st2" by simp
      with h fr show ?thesis by auto
    next
      case None
      with it "3.prems"(6) have run: "bfs_loop n E fls target d q' n' st2 = (r, st')" by simp
      have nf: "\<not> n' \<longrightarrow> q' = [[inOpt]]"
      proof (cases nested)
        case True
        with pp None have "n'" by (auto simp: process_path_def Let_def split: if_splits option.splits prod.splits)
        then show ?thesis by simp
      next
        case False
        with first have "length p \<le> 5" by simp
        with h(4) None show ?thesis by simp
      qed
      from "3.IH"[OF it[symmetric] _ _ _ "3.prems"(1) h(1) h(2) h(3) nf run] None obtain evs2 where
        "declares_from st' = declares_from st0" "conversionsFromAnyInput st' = conversionsFromAnyInput st0"
        "events st' = events st2 @ evs2" "\<forall>e \<in> set evs2. ok_event st0 inOpt e" by auto
      with h fr show ?thesis by auto
    qed
  qed
qed

lemma adjacent_cache_cong:
  "supportedFormatCache st' = supportedFormatCache st \<Longrightarrow> adjacent st' p = adjacent st p"
  by (induction st p rule: adjacent.induct) (auto simp: declares_from_def)

lemma from_mimes_agree_cong:
  "supportedFormatCache st' = supportedFormatCache st \<Longrightarrow> from_mimes_agree E st' = from_mimes_agree E st"
  by (simp add: from_mimes_agree_def declares_from_def)

lemma buildConvertPath_ok:
  assumes "from_mimes_agree E st"
    and "buildConvertPath n E fls target [[inOpt]] deadlineMs st = (r, st')"
  shows "declares_from st' = declares_from st \<and>
         conversionsFromAnyInput st' = conversionsFromAnyInput st \<and>
         (\<exists>evs. events st' = events st @ evs \<and> (\<forall>e \<in> set evs. ok_event st inOpt e))"
proof -
  let ?s = "st\<lparr>convertPathCache := []\<rparr>"
  from assms(2) have run: "bfs_loop n E fls target deadlineMs [[inOpt]] False ?s = (r, st')"
    by (simp add: buildConvertPath_def)
  have a: "from_mimes_agree E ?s" using assms(1) from_mimes_agree_cong[of ?s st E] by simp
  have q: "\<forall>q \<in> set [[inOpt]]. q \<noteq> [] \<and> adjacent ?s q" by simp
  from bfs_loop_ok[OF a refl refl q _ run] obtain evs where
    h: "declares_from st' = declares_from ?s" "conversionsFromAnyInput st' = conversionsFromAnyInput ?s"
       "events st' = events st @ evs" "\<forall>e \<in> set evs. ok_event ?s inOpt e" by auto
  have "ok_event ?s inOpt e = ok_event st inOpt e" for e
    using adjacent_cache_cong[of ?s st] by (cases e) auto
  with h declares_from_cong[of ?s st] show ?thesis by simp
qed

section \<open>The chain found is run a second time\<close>

lemma convert_targets_append [simp]:
  "convert_targets (xs @ ys) = convert_targets xs @ convert_targets ys"
  by (simp add: convert_targets_def)

lemma convert_targets_simps [simp]:
  "convert_targets [] = []"
  "convert_targets (ConvertCall h fls inF outF # evs) = (h, outF) # convert_targets evs"
  "convert_targets (InitCall g b # evs) = convert_targets evs"
  "convert_targets (PathAttempt q # evs) = convert_targets evs"
  by (simp_all add: convert_targets_def)

lemma ready_formats_run:
  "ready_formats E h st = (r, st') \<Longrightarrow>
     convertPathCache st' = convertPathCache st \<and> next_nid st' = next_nid st \<and>
     (\<exists>evs. events st' = events st @ evs \<and> convert_targets evs = [])"
  by (auto simp: ready_formats_def Let_def split: if_splits prod.splits option.splits)

lemma attempt_hop_run:
  assumes "attempt_hop E p i fls st = (r, st')"
  shows "next_nid st' = next_nid st \<and>
         (\<exists>evs. events st' = events st @ evs \<and>
            (case r of
               None \<Rightarrow> convertPathCache st' = convertPathCache st
             | Some out \<Rightarrow>
                 convertPathCache st' = convertPathCache st @ [\<lparr>files = out, node = p ! Suc i\<rparr>] \<and>
                 convert_targets evs = [node_pair (p ! Suc i)]))"
proof -
  let ?h = "handler (p ! Suc i)"
  obtain rf st1 where rf: "ready_formats E ?h st = (rf, st1)" by (cases "ready_formats E ?h st")
  from ready_formats_run[OF rf] obtain evs1 where
    s1: "convertPathCache st1 = convertPathCache st" "next_nid st1 = next_nid st"
        "events st1 = events st @ evs1" "convert_targets evs1 = []" by blast
  show ?thesis
  proof (cases rf)
    case None
    with rf assms have "st' = st1" "r = None" by (auto simp: attempt_hop_def)
    with s1 show ?thesis by auto
  next
    case (Some fso)
    show ?thesis
    proof (cases fso)
      case None
      with Some rf assms have "st' = st1" "r = None" by (auto simp: attempt_hop_def)
      with s1 show ?thesis by auto
    next
      case (Some fs)
      let ?inF = "lookupInput fs (node_format (p ! i))"
      let ?outF = "node_format (p ! Suc i)"
      obtain res w2 where dc: "doConvert E (world st1) ?h fls ?inF ?outF = (res, w2)"
        by (cases "doConvert E (world st1) ?h fls ?inF ?outF")
      from Some \<open>rf = Some fso\<close> rf assms dc have st':
        "next_nid st' = next_nid st1"
        "events st' = events st1 @ [ConvertCall ?h fls ?inF ?outF]"
        "case r of None \<Rightarrow> convertPathCache st' = convertPathCache st1
         | Some out \<Rightarrow> convertPathCache st' = convertPathCache st1 @ [\<lparr>files = out, node = p ! Suc i\<rparr>]"
        by (auto simp: attempt_hop_def Let_def split: option.splits if_splits)
      with s1 show ?thesis by (auto simp: node_pair_def split: option.splits)
    qed
  qed
qed

lemma cached_called_keep:
  assumes "cached_called k st" and "events st' = events st @ evs"
    and "convertPathCache st' = convertPathCache st \<or> convertPathCache st' = []"
  shows "cached_called k st'"
proof -
  from assms(1) have k: "k \<le> length (events st)" by (simp add: cached_called_def)
  then have d: "drop k (events st') = drop k (events st) @ evs" using assms(2) by simp
  show ?thesis
    unfolding cached_called_def d
  proof (intro conjI allI)
    show "k \<le> length (events st')" using k assms(2) by simp
  next
    fix x
    have "count_list (map (\<lambda>e. node_pair (node e)) (convertPathCache st')) x
            \<le> count_list (map (\<lambda>e. node_pair (node e)) (convertPathCache st)) x"
      using assms(3) by auto
    also have "\<dots> \<le> count_list (convert_targets (drop k (events st))) x"
      using assms(1) unfolding cached_called_def by blast
    finally show "count_list (map (\<lambda>e. node_pair (node e)) (convertPathCache st')) x
            \<le> count_list (convert_targets (drop k (events st) @ evs)) x"
      by simp
  qed
qed

lemma cached_called_push:
  assumes "cached_called k st" and "events st' = events st @ evs"
    and "convertPathCache st' = convertPathCache st @ [e]"
    and "convert_targets evs = [node_pair (node e)]"
  shows "cached_called k st'"
proof -
  from assms(1) have k: "k \<le> length (events st)" by (simp add: cached_called_def)
  then have d: "drop k (events st') = drop k (events st) @ evs" using assms(2) by simp
  show ?thesis
    unfolding cached_called_def d
  proof (intro conjI allI)
    show "k \<le> length (events st')" using k assms(2) by simp
  next
    fix x
    have "count_list (map (\<lambda>e. node_pair (node e)) (convertPathCache st)) x
            \<le> count_list (convert_targets (drop k (events st))) x"
      using assms(1) unfolding cached_called_def by blast
    then show "count_list (map (\<lambda>e. node_pair (node e)) (convertPathCache st')) x
            \<le> count_list (convert_targets (drop k (events st) @ evs)) x"
      by (simp add: assms(3,4))
  qed
qed

lemma aligned_length: "aligned st p \<Longrightarrow> length (convertPathCache st) \<le> length (tl p)"
proof -
  assume "aligned st p"
  then have "length (map node (convertPathCache st)) = length (take (length (convertPathCache st)) (tl p))"
    by (simp only: aligned_def)
  then show ?thesis by simp
qed

lemma attempt_from_run:
  "length (convertPathCache st) = i \<Longrightarrow> aligned st p \<Longrightarrow> cached_called k st \<Longrightarrow>
   attempt_from E p i fls st = (r, st') \<Longrightarrow>
     next_nid st' = next_nid st \<and> cached_called k st' \<and> aligned st' p \<and>
     (\<exists>evs. events st' = events st @ evs \<and>
        (case r of
           None \<Rightarrow> Suc (length (convertPathCache st')) < length p
         | Some (out, p') \<Rightarrow> p' = p \<and> map node (convertPathCache st') = tl p \<and>
               convert_targets evs = map node_pair (drop (Suc i) p)))"
proof (induction E p i fls st rule: attempt_from.induct)
  case (1 E p i fls st)
  note len = "1.prems"(1) and al = "1.prems"(2) and cc = "1.prems"(3) and run = "1.prems"(4)
  show ?case
  proof (cases "i + 1 < length p")
    case False
    with run have r: "r = Some (fls, p)" "st' = st" by (simp_all add: attempt_from.simps)
    from aligned_length[OF al] len False have "length (tl p) \<le> i" by simp
    with al len have "map node (convertPathCache st) = tl p" by (simp add: aligned_def)
    moreover from False have "drop (Suc i) p = []" by simp
    ultimately show ?thesis using r al cc by simp
  next
    case True
    then have i: "Suc i < length p" by simp
    obtain ro st1 where hop: "attempt_hop E p i fls st = (ro, st1)" by (cases "attempt_hop E p i fls st")
    from attempt_hop_run[OF hop] obtain evs1 where
      h1: "next_nid st1 = next_nid st" "events st1 = events st @ evs1"
      and h1c: "case ro of
               None \<Rightarrow> convertPathCache st1 = convertPathCache st
             | Some out \<Rightarrow>
                 convertPathCache st1 = convertPathCache st @ [\<lparr>files = out, node = p ! Suc i\<rparr>] \<and>
                 convert_targets evs1 = [node_pair (p ! Suc i)]" by blast
    show ?thesis
    proof (cases ro)
      case None
      with True hop run have r: "r = None" "st' = st1" by (simp_all add: attempt_from.simps)
      from None h1c have c1: "convertPathCache st1 = convertPathCache st" by simp
      have "cached_called k st1"
        by (rule cached_called_keep[OF cc h1(2)]) (simp add: c1)
      moreover have "aligned st1 p" using al c1 by (simp add: aligned_def)
      ultimately show ?thesis using r h1 c1 len i by auto
    next
      case (Some out)
      with True hop run have run2: "attempt_from E p (Suc i) out st1 = (r, st')"
        by (simp add: attempt_from.simps)
      from Some h1c have c1: "convertPathCache st1 = convertPathCache st @ [\<lparr>files = out, node = p ! Suc i\<rparr>]"
        and t1: "convert_targets evs1 = [node_pair (p ! Suc i)]" by simp_all
      have len1: "length (convertPathCache st1) = Suc i" using c1 len by simp
      have cc1: "cached_called k st1"
        by (rule cached_called_push[OF cc h1(2), of "\<lparr>files = out, node = p ! Suc i\<rparr>"])
           (simp_all add: c1 t1)
      have "i < length (tl p)" using i by simp
      then have "take (Suc i) (tl p) = take i (tl p) @ [tl p ! i]" by (rule take_Suc_conv_app_nth)
      moreover have "tl p ! i = p ! Suc i" using i by (simp add: nth_tl)
      ultimately have al1: "aligned st1 p" using al len c1 by (simp add: aligned_def)
      from "1.IH"[OF True hop[symmetric] _ len1 al1 cc1 run2] Some obtain evs2 where
        h2: "next_nid st' = next_nid st1" "cached_called k st'" "aligned st' p"
            "events st' = events st1 @ evs2"
        and h2c: "case r of
           None \<Rightarrow> Suc (length (convertPathCache st')) < length p
         | Some (out, p') \<Rightarrow> p' = p \<and> map node (convertPathCache st') = tl p \<and>
               convert_targets evs2 = map node_pair (drop (Suc (Suc i)) p)" by auto
      have dr: "map node_pair (drop (Suc i) p) = node_pair (p ! Suc i) # map node_pair (drop (Suc (Suc i)) p)"
        using i by (simp add: Cons_nth_drop_Suc[symmetric])
      have "events st' = events st @ (evs1 @ evs2)" using h1 h2 by simp
      moreover have "case r of
           None \<Rightarrow> Suc (length (convertPathCache st')) < length p
         | Some (out, p') \<Rightarrow> p' = p \<and> map node (convertPathCache st') = tl p \<and>
               convert_targets (evs1 @ evs2) = map node_pair (drop (Suc i) p)"
        using h2c t1 dr by (auto split: option.splits)
      ultimately have "\<exists>evs. events st' = events st @ evs \<and> (case r of
           None \<Rightarrow> Suc (length (convertPathCache st')) < length p
         | Some (out, p') \<Rightarrow> p' = p \<and> map node (convertPathCache st') = tl p \<and>
               convert_targets evs = map node_pair (drop (Suc i) p))"
        by (intro exI[of _ "evs1 @ evs2"] conjI)
      with h1 h2 show ?thesis by simp
    qed
  qed
qed

lemma attemptConvertPath_run:
  assumes "aligned st p" and "cached_called k st"
    and "attemptConvertPath E fls p st = (r, st')"
  shows "next_nid st' = next_nid st \<and> cached_called k st' \<and> aligned st' p \<and>
     (\<exists>evs. events st' = events st @ evs \<and>
        (case r of
           None \<Rightarrow> Suc (length (convertPathCache st')) < length p
         | Some (out, p') \<Rightarrow> p' = p \<and> map node (convertPathCache st') = tl p \<and>
               convert_targets evs = map node_pair (drop (Suc (length (convertPathCache st))) p)))"
proof (cases "convertPathCache st")
  case Nil
  with assms(3) have run: "attempt_from E p 0 fls st = (r, st')" by (simp add: attemptConvertPath_def)
  from Nil have l0: "length (convertPathCache st) = 0" by simp
  from attempt_from_run[OF l0 assms(1,2) run] show ?thesis unfolding l0 .
next
  case (Cons a list)
  with assms(3) have run: "attempt_from E p (length (convertPathCache st))
      (files (last (convertPathCache st))) st = (r, st')" by (simp add: attemptConvertPath_def)
  from attempt_from_run[OF refl assms(1,2) run] show ?thesis .
qed


lemma aligned_snoc_fail:
  assumes "P \<noteq> []" and "aligned st (P @ [c])" and "Suc (length (convertPathCache st)) < length (P @ [c])"
  shows "aligned st P"
proof -
  from assms(3) have "length (convertPathCache st) \<le> length (tl P)" using assms(1) by (cases P) auto
  with assms(1,2) show ?thesis by (simp add: aligned_def)
qed

lemma aligned_snoc:
  assumes "P \<noteq> []" and "aligned st P"
  shows "aligned st (P @ [c])"
  using assms aligned_length[OF assms(2)] by (simp add: aligned_def)

lemma cache_of_attempt_cong:
  "events st' = events st \<Longrightarrow> convertPathCache st' = convertPathCache st \<Longrightarrow>
     cache_of_attempt k st' = cache_of_attempt k st"
  by (simp add: cache_of_attempt_def aligned_def)

lemma try_candidates_run:
  "P \<noteq> [] \<Longrightarrow> aligned st P \<Longrightarrow> cached_called k st \<Longrightarrow> cache_of_attempt k st \<Longrightarrow>
   try_candidates E fls P cs st = (r, st') \<Longrightarrow>
     next_nid st' = next_nid st \<and> cached_called k st' \<and> cache_of_attempt k st' \<and>
     (case r of None \<Rightarrow> aligned st' P
      | Some (out, p) \<Rightarrow> map node (convertPathCache st') = tl p \<and>
                          PathAttempt p \<in> set (drop k (events st')))"
proof (induction cs arbitrary: st)
  case Nil
  then show ?case by simp
next
  case (Cons c cs)
  let ?st0 = "st\<lparr>events := events st @ [PathAttempt (P @ [c])]\<rparr>"
  have al0: "aligned ?st0 (P @ [c])"
    using aligned_snoc[OF Cons.prems(1,2), of c] by (simp add: aligned_def)
  have cc0: "cached_called k ?st0"
    by (rule cached_called_keep[OF Cons.prems(3), of _ "[PathAttempt (P @ [c])]"]) simp_all
  obtain ro st1 where a: "attemptConvertPath E fls (P @ [c]) ?st0 = (ro, st1)"
    by (cases "attemptConvertPath E fls (P @ [c]) ?st0")
  from Cons.prems(3) have k: "k \<le> length (events st)" by (simp add: cached_called_def)
  from attemptConvertPath_run[OF al0 cc0 a] obtain evs where
    h: "next_nid st1 = next_nid st" "cached_called k st1" "aligned st1 (P @ [c])"
    and ev1: "events st1 = events ?st0 @ evs"
    and hc: "case ro of
           None \<Rightarrow> Suc (length (convertPathCache st1)) < length (P @ [c])
         | Some (out, p') \<Rightarrow> p' = P @ [c] \<and> map node (convertPathCache st1) = tl (P @ [c]) \<and>
               convert_targets evs = map node_pair (drop (Suc (length (convertPathCache ?st0))) (P @ [c]))"
    by auto
  from ev1 k have mem: "PathAttempt (P @ [c]) \<in> set (drop k (events st1))" by simp
  with h(3) have ca1: "cache_of_attempt k st1" unfolding cache_of_attempt_def by blast
  show ?case
  proof (cases ro)
    case (Some x)
    with a Cons.prems(5) have "st' = st1" "r = Some x" by simp_all
    with h hc Some mem ca1 show ?thesis by (auto split: prod.splits)
  next
    case None
    with a Cons.prems(5) have run: "try_candidates E fls P cs st1 = (r, st')" by simp
    from None hc have "Suc (length (convertPathCache st1)) < length (P @ [c])" by simp
    from aligned_snoc_fail[OF Cons.prems(1) h(3) this] have al1: "aligned st1 P" .
    from Cons.IH[OF Cons.prems(1) al1 h(2) ca1 run] h(1) show ?thesis by simp
  qed
qed

lemma realign_short: "length P \<le> Suc 0 \<Longrightarrow> realign P (Suc 0) cache = cache"
  by (subst realign.simps) simp

lemma realign_clear:
  "Suc 0 < length P \<Longrightarrow> length cache \<le> Suc 0 \<or> P ! Suc 0 \<noteq> node (cache ! Suc 0) \<Longrightarrow>
     realign P (Suc 0) cache = []"
  by (subst realign.simps) auto

lemma push_all_ids:
  "q \<in> set (push_all n path hfs) \<Longrightarrow>
     \<exists>nd. q = path @ [nd] \<and> n \<le> nid nd \<and> nid nd < n + length hfs"
  by (auto simp: push_all_def enumerate_eq_zip in_set_zip)

lemma process_path_run:
  assumes cc: "cached_called k st" and ca: "cache_of_attempt k st"
    and phase: "(\<not> nested \<and> path = [inOpt] \<and> queue = [] \<and> convertPathCache st = []) \<or>
                (nested \<and> ids_ok n1 (path # queue) st)"
    and run: "process_path E fls target path queue nested st = (r, queue', nested', st')"
  shows "cached_called k st' \<and> cache_of_attempt k st' \<and>
         (case r of
            Some (Found out p) \<Rightarrow> map node (convertPathCache st') = tl p \<and>
                                   PathAttempt p \<in> set (drop k (events st'))
          | Some other \<Rightarrow> True
          | None \<Rightarrow> nested' \<and> (\<exists>n1'. ids_ok n1' queue' st'))"
proof (cases "5 < length path")
  case True
  with phase have ph: "nested" "ids_ok n1 (path # queue) st" by auto
  from True run have "st' = st" "queue' = queue" "nested' = nested" "r = None"
    by (auto simp: process_path_def)
  moreover from ph(2) have "ids_ok n1 queue st" by (simp add: ids_ok_def)
  ultimately show ?thesis using cc ca ph by auto
next
  case False
  let ?st1 = "st\<lparr>convertPathCache := realign path 1 (convertPathCache st)\<rparr>"
  from phase have ne: "path \<noteq> []" by (auto simp: ids_ok_def)
  have c1: "convertPathCache ?st1 = []"
  proof (cases nested)
    case False
    with phase have "length path \<le> Suc 0" "convertPathCache st = []" by auto
    then show ?thesis by (simp add: realign_short)
  next
    case True
    with phase have "ids_ok n1 (path # queue) st" by simp
    then have lp: "Suc 0 < length path" and "nid (path ! Suc 0) < n1"
      "length (convertPathCache st) \<le> Suc 0 \<or> n1 \<le> nid (node (convertPathCache st ! Suc 0))"
      by (simp_all add: ids_ok_def)
    then have "length (convertPathCache st) \<le> Suc 0 \<or> path ! Suc 0 \<noteq> node (convertPathCache st ! Suc 0)"
      by auto
    from realign_clear[OF lp this] show ?thesis by simp
  qed
  from c1 have c1': "realign path (Suc 0) (convertPathCache st) = []" by simp
  have al1: "aligned ?st1 path" using c1' by (simp add: aligned_def)
  have cc1: "cached_called k ?st1"
    by (rule cached_called_keep[OF cc, of _ "[]"]) (simp_all add: c1')
  from ne obtain valid where v: "validHandlers E ?st1 path = Some valid"
    by (auto simp: validHandlers_def)
  obtain r2 st2 where t1: "try_candidates E fls path (target_candidates ?st1 valid target) ?st1 = (r2, st2)"
    by (cases "try_candidates E fls path (target_candidates ?st1 valid target) ?st1")
  have ca1: "cache_of_attempt k ?st1" using c1' by (simp add: cache_of_attempt_def)
  from try_candidates_run[OF ne al1 cc1 ca1 t1] have
    h2: "next_nid st2 = next_nid st" "cached_called k st2" "cache_of_attempt k st2"
    and h2c: "case r2 of None \<Rightarrow> aligned st2 path
      | Some (out, p) \<Rightarrow> map node (convertPathCache st2) = tl p \<and>
                          PathAttempt p \<in> set (drop k (events st2))" by simp_all
  show ?thesis
  proof (cases r2)
    case (Some a)
    obtain out p where a: "a = (out, p)" by (cases a)
    with Some False v t1 run have "st' = st2" "r = Some (Found out p)"
      by (auto simp: process_path_def Let_def)
    moreover from Some a h2c have "map node (convertPathCache st2) = tl p"
      "PathAttempt p \<in> set (drop k (events st2))" by simp_all
    ultimately show ?thesis using h2 by simp
  next
    case None
    with h2c have al2: "aligned st2 path" by simp
    obtain r3 st3 where t2: "(if nested then (None, st2)
        else try_candidates E fls path (anyConversions st2 target) st2) = (r3, st3)"
      by (cases "(if nested then (None, st2)
        else try_candidates E fls path (anyConversions st2 target) st2)")
    have h3: "next_nid st3 = next_nid st \<and> cached_called k st3 \<and> cache_of_attempt k st3 \<and>
      (case r3 of None \<Rightarrow> aligned st3 path
      | Some (out, p) \<Rightarrow> map node (convertPathCache st3) = tl p \<and>
                          PathAttempt p \<in> set (drop k (events st3)))"
    proof (cases nested)
      case True
      with t2 have "st3 = st2" "r3 = None" by simp_all
      with h2 al2 show ?thesis by simp
    next
      case False
      with t2 have "try_candidates E fls path (anyConversions st2 target) st2 = (r3, st3)" by simp
      from try_candidates_run[OF ne al2 h2(2,3) this] h2(1) show ?thesis by simp
    qed
    show ?thesis
    proof (cases r3)
      case (Some a)
      obtain out p where a: "a = (out, p)" by (cases a)
      with Some None False v t1 t2 run have "st' = st3" "r = Some (Found out p)"
        by (auto simp: process_path_def Let_def)
      moreover from Some a h3 have "map node (convertPathCache st3) = tl p"
        "PathAttempt p \<in> set (drop k (events st3))" by simp_all
      ultimately show ?thesis using h3 by simp
    next
      case None
      with h3 have al3: "aligned st3 path" and n3: "next_nid st3 = next_nid st"
        and cc3: "cached_called k st3" and ca3: "cache_of_attempt k st3" by simp_all
      let ?hfs = "expansions st3 valid path"
      from False v t1 \<open>r2 = None\<close> t2 None run have fin:
        "st' = st3\<lparr>next_nid := next_nid st3 + length ?hfs\<rparr>"
        "queue' = queue @ push_all (next_nid st3) path ?hfs" "nested'" "r = None"
        by (auto simp: process_path_def Let_def)
      have cc': "cached_called k st'"
        by (rule cached_called_keep[OF cc3, of _ "[]"]) (simp_all add: fin)
      have ca': "cache_of_attempt k st'"
        using ca3 cache_of_attempt_cong[of st' st3 k] by (simp add: fin)
      have "\<exists>n1'. ids_ok n1' queue' st'"
      proof (cases nested)
        case False
        with phase have pth: "path = [inOpt]" "queue = []" by auto
        from aligned_length[OF al3] pth have c3: "convertPathCache st3 = []" by simp
        have "Suc 0 < length q \<and> nid (q ! Suc 0) < next_nid st3 + length ?hfs \<and> length q \<le> Suc (Suc 0)"
          if "q \<in> set (push_all (next_nid st3) path ?hfs)" for q
        proof -
          from push_all_ids[OF that] obtain nd where
            "q = path @ [nd]" "nid nd < next_nid st3 + length ?hfs" by blast
          with pth show ?thesis by simp
        qed
        then have "\<forall>q \<in> set (push_all (next_nid st3) path ?hfs).
            Suc 0 < length q \<and> nid (q ! Suc 0) < next_nid st3 + length ?hfs \<and>
            (length q \<le> Suc (Suc 0) \<or> next_nid st3 + length ?hfs \<le> nid (q ! Suc (Suc 0)))"
          by blast
        then have qs: "list_all (\<lambda>q. Suc 0 < length q \<and> nid (q ! Suc 0) < next_nid st3 + length ?hfs \<and>
                    (length q \<le> Suc (Suc 0) \<or> next_nid st3 + length ?hfs \<le> nid (q ! Suc (Suc 0)))) queue'"
          unfolding fin(2) pth(2) by (simp add: list_all_iff)
        have "ids_ok (next_nid st3 + length ?hfs) queue' (st3\<lparr>next_nid := next_nid st3 + length ?hfs\<rparr>)"
          unfolding ids_ok_def using qs c3 by simp
        then have "ids_ok (next_nid st3 + length ?hfs) queue' st'" unfolding fin(1) .
        then show ?thesis by blast
      next
        case True
        with phase have io: "ids_ok n1 (path # queue) st" by simp
        then have p: "Suc 0 < length path" "nid (path ! Suc 0) < n1"
             "length path \<le> Suc (Suc 0) \<or> n1 \<le> nid (path ! Suc (Suc 0))"
          and q: "list_all (\<lambda>q. Suc 0 < length q \<and> nid (q ! Suc 0) < n1 \<and>
                    (length q \<le> Suc (Suc 0) \<or> n1 \<le> nid (q ! Suc (Suc 0)))) queue"
          and n: "n1 \<le> next_nid st" by (simp_all add: ids_ok_def)
        have cache3: "length (convertPathCache st3) \<le> Suc 0 \<or> n1 \<le> nid (node (convertPathCache st3 ! Suc 0))"
        proof (cases "length (convertPathCache st3) \<le> Suc 0")
          case False
          then have l: "Suc 0 < length (convertPathCache st3)" by simp
          from aligned_length[OF al3] l have lp: "Suc 0 < length (tl path)" by simp
          from al3 have "map node (convertPathCache st3) ! Suc 0
              = take (length (convertPathCache st3)) (tl path) ! Suc 0"
            by (simp only: aligned_def)
          with l lp have "node (convertPathCache st3 ! Suc 0) = path ! Suc (Suc 0)"
            by (simp add: nth_tl)
          moreover from lp have "\<not> length path \<le> Suc (Suc 0)" by simp
          ultimately show ?thesis using p(3) by simp
        qed simp
        have "Suc 0 < length q' \<and> nid (q' ! Suc 0) < n1 \<and>
              (length q' \<le> Suc (Suc 0) \<or> n1 \<le> nid (q' ! Suc (Suc 0)))"
          if "q' \<in> set (push_all (next_nid st3) path ?hfs)" for q'
        proof -
          from push_all_ids[OF that] obtain nd where
            nd: "q' = path @ [nd]" "next_nid st3 \<le> nid nd" by blast
          have a: "q' ! Suc 0 = path ! Suc 0" using nd(1) p(1) by (simp add: nth_append)
          have b: "n1 \<le> nid (q' ! Suc (Suc 0))"
          proof (cases "length path \<le> Suc (Suc 0)")
            case True
            with p(1) have "length path = Suc (Suc 0)" by simp
            then have "q' ! Suc (Suc 0) = nd" using nd(1) by (simp add: nth_append)
            with nd(2) n n3 show ?thesis by simp
          next
            case False
            then have "q' ! Suc (Suc 0) = path ! Suc (Suc 0)" using nd(1) by (simp add: nth_append)
            with False p(3) show ?thesis by simp
          qed
          have c: "Suc 0 < length q'" using nd(1) p(1) by (cases path) auto
          from a b c p(2) show ?thesis by simp
        qed
        then have new: "\<forall>q' \<in> set (push_all (next_nid st3) path ?hfs).
              Suc 0 < length q' \<and> nid (q' ! Suc 0) < n1 \<and>
              (length q' \<le> Suc (Suc 0) \<or> n1 \<le> nid (q' ! Suc (Suc 0)))" by blast
        from q have old: "\<forall>q' \<in> set queue.
              Suc 0 < length q' \<and> nid (q' ! Suc 0) < n1 \<and>
              (length q' \<le> Suc (Suc 0) \<or> n1 \<le> nid (q' ! Suc (Suc 0)))"
          by (simp add: list_all_iff)
        from old new have "\<forall>q' \<in> set queue'.
              Suc 0 < length q' \<and> nid (q' ! Suc 0) < n1 \<and>
              (length q' \<le> Suc (Suc 0) \<or> n1 \<le> nid (q' ! Suc (Suc 0)))"
          unfolding fin(2) set_append by blast
        then have qs: "list_all (\<lambda>q. Suc 0 < length q \<and> nid (q ! Suc 0) < n1 \<and>
                    (length q \<le> Suc (Suc 0) \<or> n1 \<le> nid (q ! Suc (Suc 0)))) queue'"
          by (simp add: list_all_iff)
        have nn: "n1 \<le> next_nid st3 + length ?hfs" using n n3 by simp
        have "ids_ok n1 queue' (st3\<lparr>next_nid := next_nid st3 + length ?hfs\<rparr>)"
          unfolding ids_ok_def using qs cache3 nn by simp
        then have "ids_ok n1 queue' st'" unfolding fin(1) .
        then show ?thesis by blast
      qed
      with cc' ca' fin(3,4) show ?thesis by simp
    qed
  qed
qed

lemma cached_called_cong:
  "events st' = events st \<Longrightarrow> convertPathCache st' = convertPathCache st \<Longrightarrow>
     cached_called k st' = cached_called k st"
  by (simp add: cached_called_def)

lemma ids_ok_cong:
  "next_nid st' = next_nid st \<Longrightarrow> convertPathCache st' = convertPathCache st \<Longrightarrow>
     ids_ok n1 queue st' = ids_ok n1 queue st"
  by (simp add: ids_ok_def)

lemma count_list_tl: "count_list (tl xs) x \<le> count_list xs x"
  by (cases xs) simp_all

lemma bfs_loop_run:
  "cached_called k st \<Longrightarrow> cache_of_attempt k st \<Longrightarrow>
   (\<not> nested \<and> queue = [[inOpt]] \<and> convertPathCache st = []) \<or> (nested \<and> (\<exists>n1. ids_ok n1 queue st)) \<Longrightarrow>
   bfs_loop n E fls target d queue nested st = (Some (Found out p), st') \<Longrightarrow>
     cached_called k st' \<and>
     (\<forall>x. count_list (map node_pair (tl p)) x
            \<le> count_list (map (\<lambda>e. node_pair (node e)) (convertPathCache st')) x) \<and>
     (\<exists>q. PathAttempt q \<in> set (drop k (events st')) \<and>
          (p = q \<or> (\<exists>j. p = take j (tl q))))"
proof (induction n E fls target d queue nested st rule: bfs_loop.induct)
  case (1 n E fls target d nested st)
  then show ?case by simp
next
  case (2 E fls target d p ps nested st)
  then show ?case by simp
next
  case (3 n E fls target d q qs nested st)
  obtain b st1 where dl: "deadline_exceeded E d st = (b, st1)" by (cases "deadline_exceeded E d st")
  note fr = deadline_exceeded_frame[OF dl]
  from fr have cc1: "cached_called k st1" using "3.prems"(1) cached_called_cong[of st1 st k] by simp
  from fr have ca1: "cache_of_attempt k st1" using "3.prems"(2) cache_of_attempt_cong[of st1 st k] by simp
  show ?case
  proof (cases b)
    case True
    with dl "3.prems"(4) have r: "st' = st1" "partial_result st1 = Found out p"
      by (auto simp: bfs_iteration_def)
    from r(2) have p: "p = map node (convertPathCache st1)" and ne: "convertPathCache st1 \<noteq> []"
      by (auto simp: partial_result_def split: list.splits)
    then have "map node_pair (tl p) = tl (map (\<lambda>e. node_pair (node e)) (convertPathCache st1))"
      by (simp add: map_tl comp_def)
    then have c: "\<forall>x. count_list (map node_pair (tl p)) x
            \<le> count_list (map (\<lambda>e. node_pair (node e)) (convertPathCache st1)) x"
      by (simp add: count_list_tl)
    from ca1 ne obtain q where q: "PathAttempt q \<in> set (drop k (events st1))" "aligned st1 q"
      unfolding cache_of_attempt_def by blast
    from q(2) p have "p = take (length (convertPathCache st1)) (tl q)" by (simp add: aligned_def)
    with q(1) have "\<exists>q. PathAttempt q \<in> set (drop k (events st1)) \<and>
          (p = q \<or> (\<exists>j. p = take j (tl q)))" by blast
    with r cc1 c show ?thesis by simp
  next
    case False
    obtain ro q' n' st2 where pp: "process_path E fls target q qs nested st1 = (ro, q', n', st2)"
      by (cases "process_path E fls target q qs nested st1") auto
    with False dl have it: "bfs_iteration E fls target d (q # qs) nested st = (ro, q', n', st2)"
      by (simp add: bfs_iteration_def)
    from "3.prems"(3) obtain n1 where
      ph: "(\<not> nested \<and> q = [inOpt] \<and> qs = [] \<and> convertPathCache st1 = []) \<or>
           (nested \<and> ids_ok n1 (q # qs) st1)"
      using fr ids_ok_cong[of st1 st] by auto
    from process_path_run[OF cc1 ca1 ph pp] have
      h: "cached_called k st2" "cache_of_attempt k st2"
      and hc: "case ro of
            Some (Found out p) \<Rightarrow> map node (convertPathCache st2) = tl p \<and>
                                   PathAttempt p \<in> set (drop k (events st2))
          | Some other \<Rightarrow> True
          | None \<Rightarrow> n' \<and> (\<exists>n1'. ids_ok n1' q' st2)" by simp_all
    show ?thesis
    proof (cases ro)
      case (Some a)
      with it "3.prems"(4) have a: "st' = st2" "a = Found out p" by simp_all
      with Some hc have m: "map node (convertPathCache st2) = tl p"
        and att: "PathAttempt p \<in> set (drop k (events st2))" by simp_all
      from m have "map node_pair (tl p) = map (\<lambda>e. node_pair (node e)) (convertPathCache st2)"
        by (metis (no_types, lifting) map_map comp_apply map_eq_conv)
      with a h att show ?thesis by auto
    next
      case None
      with it "3.prems"(4) have run: "bfs_loop n E fls target d q' n' st2 = (Some (Found out p), st')"
        by simp
      from None hc have "(\<not> n' \<and> q' = [[inOpt]] \<and> convertPathCache st2 = []) \<or> (n' \<and> (\<exists>n1. ids_ok n1 q' st2))"
        by simp
      from "3.IH"[OF it[symmetric] _ _ _ h this run] None show ?thesis by simp
    qed
  qed
qed

lemma buildConvertPath_run:
  assumes "buildConvertPath n E fls target [[inOpt]] d st = (Some (Found out p), st1)"
  shows "length (events st) \<le> length (events st1) \<and>
         (\<forall>x. count_list (map node_pair (tl p)) x
                \<le> count_list (convert_targets (drop (length (events st)) (events st1))) x) \<and>
         (\<exists>q. PathAttempt q \<in> set (drop (length (events st)) (events st1)) \<and>
              (p = q \<or> (\<exists>j. p = take j (tl q))))"
proof -
  let ?s = "st\<lparr>convertPathCache := []\<rparr>"
  from assms have run: "bfs_loop n E fls target d [[inOpt]] False ?s = (Some (Found out p), st1)"
    by (simp add: buildConvertPath_def)
  have cc: "cached_called (length (events st)) ?s" by (simp add: cached_called_def)
  have ph: "(\<not> False \<and> [[inOpt]] = [[inOpt]] \<and> convertPathCache ?s = []) \<or>
            (False \<and> (\<exists>n1. ids_ok n1 [[inOpt]] ?s))" by simp
  have ca: "cache_of_attempt (length (events st)) ?s" by (simp add: cache_of_attempt_def)
  from bfs_loop_run[OF cc ca ph run] have
    cc1: "cached_called (length (events st)) st1"
    and le: "\<forall>x. count_list (map node_pair (tl p)) x
            \<le> count_list (map (\<lambda>e. node_pair (node e)) (convertPathCache st1)) x"
    and sh: "\<exists>q. PathAttempt q \<in> set (drop (length (events st)) (events st1)) \<and>
              (p = q \<or> (\<exists>j. p = take j (tl q)))"
    by simp_all
  have "count_list (map node_pair (tl p)) x
          \<le> count_list (convert_targets (drop (length (events st)) (events st1))) x" for x
  proof -
    from le have "count_list (map node_pair (tl p)) x
            \<le> count_list (map (\<lambda>e. node_pair (node e)) (convertPathCache st1)) x" by blast
    also from cc1 have "\<dots> \<le> count_list (convert_targets (drop (length (events st)) (events st1))) x"
      unfolding cached_called_def by blast
    finally show ?thesis .
  qed
  with cc1 sh show ?thesis unfolding cached_called_def by blast
qed

text \<open>Neither an attempt nor the search downloads anything.\<close>

lemma ready_formats_downloads:
  "ready_formats E h st = (r, st') \<Longrightarrow> filter is_download (events st') = filter is_download (events st)"
  by (auto simp: ready_formats_def Let_def split: if_splits prod.splits option.splits)

lemma attempt_hop_downloads:
  "attempt_hop E path i fls st = (r, st') \<Longrightarrow> filter is_download (events st') = filter is_download (events st)"
  unfolding attempt_hop_def Let_def
  by (auto split: if_splits prod.splits option.splits dest!: ready_formats_downloads)

lemma attempt_from_downloads:
  "attempt_from E path i fls st = (r, st') \<Longrightarrow> filter is_download (events st') = filter is_download (events st)"
proof (induction E path i fls st rule: attempt_from.induct)
  case (1 E path i fls st)
  show ?case
  proof (cases "i + 1 < length path")
    case False
    with "1.prems" show ?thesis by (simp add: attempt_from.simps)
  next
    case True
    obtain ro st1 where hop: "attempt_hop E path i fls st = (ro, st1)" by (cases "attempt_hop E path i fls st")
    note d1 = attempt_hop_downloads[OF hop]
    show ?thesis
    proof (cases ro)
      case None
      with True hop "1.prems" d1 show ?thesis by (auto simp: attempt_from.simps)
    next
      case (Some out)
      with True hop "1.prems" have "attempt_from E path (Suc i) out st1 = (r, st')"
        by (simp add: attempt_from.simps)
      from "1.IH"[OF True hop[symmetric] _ this] Some d1 show ?thesis by simp
    qed
  qed
qed

lemma attemptConvertPath_downloads:
  "attemptConvertPath E fls path st = (r, st') \<Longrightarrow>
     filter is_download (events st') = filter is_download (events st)"
  unfolding attemptConvertPath_def by (auto split: list.splits dest: attempt_from_downloads)

lemma try_candidates_downloads:
  "try_candidates E fls path cs st = (r, st') \<Longrightarrow>
     filter is_download (events st') = filter is_download (events st)"
proof (induction cs arbitrary: st)
  case Nil
  then show ?case by simp
next
  case (Cons c cs)
  let ?st0 = "st\<lparr>events := events st @ [PathAttempt (path @ [c])]\<rparr>"
  obtain ro st1 where a: "attemptConvertPath E fls (path @ [c]) ?st0 = (ro, st1)"
    by (cases "attemptConvertPath E fls (path @ [c]) ?st0")
  from attemptConvertPath_downloads[OF a] have d1:
    "filter is_download (events st1) = filter is_download (events st)" by simp
  show ?case
  proof (cases ro)
    case (Some x)
    with a Cons.prems d1 show ?thesis by auto
  next
    case None
    with a Cons.prems have "try_candidates E fls path cs st1 = (r, st')" by simp
    from Cons.IH[OF this] d1 show ?thesis by simp
  qed
qed

lemma process_path_downloads:
  assumes "process_path E fls target path queue nested st = (r, queue', nested', st')"
  shows "filter is_download (events st') = filter is_download (events st)"
proof (cases "5 < length path")
  case True
  with assms show ?thesis by (simp add: process_path_def)
next
  case False
  let ?st1 = "st\<lparr>convertPathCache := realign path 1 (convertPathCache st)\<rparr>"
  show ?thesis
  proof (cases "validHandlers E ?st1 path")
    case None
    with False assms show ?thesis by (auto simp: process_path_def Let_def)
  next
    case (Some valid)
    obtain r2 st2 where t1: "try_candidates E fls path (target_candidates ?st1 valid target) ?st1 = (r2, st2)"
      by (cases "try_candidates E fls path (target_candidates ?st1 valid target) ?st1")
    from try_candidates_downloads[OF t1] have d2:
      "filter is_download (events st2) = filter is_download (events st)" by simp
    obtain r3 st3 where t2: "(if nested then (None, st2)
        else try_candidates E fls path (anyConversions st2 target) st2) = (r3, st3)"
      by (cases "(if nested then (None, st2)
        else try_candidates E fls path (anyConversions st2 target) st2)")
    have d3: "filter is_download (events st3) = filter is_download (events st)"
    proof (cases nested)
      case True
      with t2 d2 show ?thesis by simp
    next
      case False
      with t2 have "try_candidates E fls path (anyConversions st2 target) st2 = (r3, st3)" by simp
      from try_candidates_downloads[OF this] d2 show ?thesis by simp
    qed
    from False Some t1 t2 assms have "st' = st2 \<or> st' = st3 \<or>
        st' = st3\<lparr>next_nid := next_nid st3 + length (expansions st3 valid path)\<rparr>"
      by (auto simp: process_path_def Let_def split: option.splits prod.splits)
    with d2 d3 show ?thesis by auto
  qed
qed

lemma bfs_loop_downloads:
  "bfs_loop n E fls target d queue nested st = (r, st') \<Longrightarrow>
     filter is_download (events st') = filter is_download (events st)"
proof (induction n E fls target d queue nested st rule: bfs_loop.induct)
  case (1 n E fls target d nested st)
  then show ?case by simp
next
  case (2 E fls target d p ps nested st)
  then show ?case by simp
next
  case (3 n E fls target d q qs nested st)
  obtain b st1 where dl: "deadline_exceeded E d st = (b, st1)" by (cases "deadline_exceeded E d st")
  from deadline_exceeded_frame[OF dl] have e1: "events st1 = events st" by simp
  show ?case
  proof (cases b)
    case True
    with dl "3.prems" e1 show ?thesis by (auto simp: bfs_iteration_def)
  next
    case False
    obtain ro q' n' st2 where pp: "process_path E fls target q qs nested st1 = (ro, q', n', st2)"
      by (cases "process_path E fls target q qs nested st1") auto
    with False dl have it: "bfs_iteration E fls target d (q # qs) nested st = (ro, q', n', st2)"
      by (simp add: bfs_iteration_def)
    from process_path_downloads[OF pp] e1 have d2:
      "filter is_download (events st2) = filter is_download (events st)" by simp
    show ?thesis
    proof (cases ro)
      case (Some a)
      with it "3.prems" d2 show ?thesis by simp
    next
      case None
      with it "3.prems" have run: "bfs_loop n E fls target d q' n' st2 = (r, st')" by simp
      from "3.IH"[OF it[symmetric] _ _ _ run] None d2 show ?thesis by simp
    qed
  qed
qed

lemma buildConvertPath_downloads:
  "buildConvertPath n E fls target queue d st = (r, st') \<Longrightarrow>
     filter is_download (events st') = filter is_download (events st)"
  unfolding buildConvertPath_def by (auto dest: bfs_loop_downloads)

text \<open>The files an attempt returns are the ones its last hop left in the cache.\<close>

lemma attempt_from_files:
  "attempt_from E p i fls st = (Some (out, p'), st') \<Longrightarrow>
     (if Suc i < length p then convertPathCache st' \<noteq> [] \<and> out = files (last (convertPathCache st'))
      else out = fls)"
proof (induction E p i fls st rule: attempt_from.induct)
  case (1 E p i fls st)
  show ?case
  proof (cases "i + 1 < length p")
    case False
    with "1.prems" show ?thesis by (simp add: attempt_from.simps)
  next
    case True
    obtain ro st1 where hop: "attempt_hop E p i fls st = (ro, st1)" by (cases "attempt_hop E p i fls st")
    show ?thesis
    proof (cases ro)
      case None
      with True hop "1.prems" show ?thesis by (simp add: attempt_from.simps)
    next
      case (Some o1)
      with True hop "1.prems" have run2: "attempt_from E p (Suc i) o1 st1 = (Some (out, p'), st')"
        by (simp add: attempt_from.simps)
      from attempt_hop_run[OF hop] Some have
        c1: "convertPathCache st1 = convertPathCache st @ [\<lparr>files = o1, node = p ! Suc i\<rparr>]" by auto
      note ih = "1.IH"[OF True hop[symmetric] _ run2]
      show ?thesis
      proof (cases "Suc (Suc i) < length p")
        case True
        with ih Some \<open>i + 1 < length p\<close> show ?thesis by simp
      next
        case False
        with run2 have "out = o1" "st' = st1" by (simp_all add: attempt_from.simps)
        with c1 True show ?thesis by simp
      qed
    qed
  qed
qed

text \<open>
  Claim C10. When the search started by the click (nothing usable in the path store)
  returns a chain that ends in the requested mime, the conversion cache is emptied and
  attemptConvertPath runs the chain again from its first hop. If that run fails, the
  outcome is the alert that no route was found, although the search had succeeded, and
  nothing has been downloaded. If it succeeds, the downloads of the click are exactly
  the files this second run returned, under the requested mime; these are the files its
  last hop put into the conversion cache, which now holds the hops of the chain and
  nothing else (the input files when the chain has no hop). The second run called
  doConvert once for every hop of the chain, in order, and the search before it had
  already called a conversion of its own for every hop: each (handler, output format)
  pair occurs among the conversions of the search at least as often as among the hops
  of the chain.
\<close>

theorem C10_found_chain_is_run_again:
  assumes search: "buildConvertPath n E fls outOpt [[inOpt]] (Some deadline) st = (Some (Found out p), st1)"
    and full: "p = [] \<or> mime (node_format (last p)) = mime (node_format outOpt)"
    and again: "attemptConvertPath E fls p (st1\<lparr>convertPathCache := []\<rparr>) = (r2, st2)"
  shows "case r2 of
           None \<Rightarrow>
             search_and_convert n E fls key inOpt outOpt deadline st = (AlertNoRoute, st2) \<and>
             filter is_download (events st2) = filter is_download (events st)
         | Some (out2, p2) \<Rightarrow>
             fst (search_and_convert n E fls key inOpt outOpt deadline st) = Converted out2 p False \<and>
             p2 = p \<and>
             filter is_download (events (snd (search_and_convert n E fls key inOpt outOpt deadline st))) =
               filter is_download (events st) @
               map (\<lambda>f. Download (bytes f) (file_name f) (mime (node_format outOpt))) out2 \<and>
             map node (convertPathCache st2) = tl p \<and>
             out2 = (if tl p = [] then fls else files (last (convertPathCache st2))) \<and>
             convert_targets (drop (length (events st1)) (events st2)) = map node_pair (tl p) \<and>
             list_all (\<lambda>nd. count_list (map node_pair (tl p)) (node_pair nd)
                          \<le> count_list (convert_targets (drop (length (events st)) (events st1)))
                               (node_pair nd)) (tl p)"
proof -
  let ?s = "st1\<lparr>convertPathCache := []\<rparr>"
  have one: "search_and_convert n E fls key inOpt outOpt deadline st =
           (case r2 of
              None \<Rightarrow> (AlertNoRoute, st2)
            | Some (out2, p2) \<Rightarrow>
                (Converted out2 p2 False,
                 download_all out2 (mime (node_format outOpt)) (storePath key p2 st2)))"
    using search full again
    by (auto simp: search_and_convert_def confirm_and_deliver_def split: option.splits)
  from buildConvertPath_run[OF search] have
    called: "\<forall>x. count_list (map node_pair (tl p)) x
                \<le> count_list (convert_targets (drop (length (events st)) (events st1))) x"
    by blast
  from buildConvertPath_downloads[OF search] attemptConvertPath_downloads[OF again]
  have quiet: "filter is_download (events st2) = filter is_download (events st)" by simp
  have al: "aligned ?s p" by (simp add: aligned_def)
  have cc: "cached_called 0 ?s" by (simp add: cached_called_def)
  from attemptConvertPath_run[OF al cc again] obtain evs where
    ev: "events st2 = events st1 @ evs"
    and rc: "case r2 of
           None \<Rightarrow> Suc (length (convertPathCache st2)) < length p
         | Some (out, p') \<Rightarrow> p' = p \<and> map node (convertPathCache st2) = tl p \<and>
               convert_targets evs = map node_pair (drop (Suc (length (convertPathCache ?s))) p)"
    by auto
  show ?thesis
  proof (cases r2)
    case None
    with one quiet show ?thesis by simp
  next
    case (Some a)
    obtain out2 p2 where a: "a = (out2, p2)" by (cases a)
    from Some a rc have p2: "p2 = p" and c2: "map node (convertPathCache st2) = tl p"
      and t: "convert_targets evs = map node_pair (tl p)"
      by (simp_all add: drop_Suc)
    have d1: "drop (length (events st1)) (events st2) = evs" using ev by simp
    from again Some a have "attempt_from E p 0 fls ?s = (Some (out2, p2), st2)"
      by (simp add: attemptConvertPath_def)
    from attempt_from_files[OF this] have
      "if Suc 0 < length p then convertPathCache st2 \<noteq> [] \<and> out2 = files (last (convertPathCache st2))
       else out2 = fls" .
    moreover have "(tl p = []) = (\<not> Suc 0 < length p)" by (cases p) auto
    ultimately have o2: "out2 = (if tl p = [] then fls else files (last (convertPathCache st2)))"
      by simp
    have dl: "filter is_download (events (snd (search_and_convert n E fls key inOpt outOpt deadline st))) =
               filter is_download (events st) @
               map (\<lambda>f. Download (bytes f) (file_name f) (mime (node_format outOpt))) out2"
      unfolding one Some a using quiet
      by (simp add: download_all_def storePath_def filter_map comp_def)
    have fs: "fst (search_and_convert n E fls key inOpt outOpt deadline st) = Converted out2 p False"
      unfolding one Some a using p2 by simp
    from called have cl: "list_all (\<lambda>nd. count_list (map node_pair (tl p)) (node_pair nd)
                          \<le> count_list (convert_targets (drop (length (events st)) (events st1)))
                               (node_pair nd)) (tl p)"
      unfolding list_all_iff by blast
    from fs p2 dl c2 o2 t d1 cl show ?thesis unfolding Some a by simp
  qed
qed

theorem C10_found_chain_is_run_again_witness:
  "fst (buildConvertPath 10 env4 one_file target4 [[input4]] (Some 600000) router4)
     = Some (Found one_file [input4, option4]) \<and>
   search_and_convert 10 env4 one_file ''i->t'' input4 target4 600000 router4 =
     (AlertNoRoute,
      snd (attemptConvertPath env4 one_file [input4, option4]
             ((snd (buildConvertPath 10 env4 one_file target4 [[input4]] (Some 600000) router4))
                \<lparr>convertPathCache := []\<rparr>))) \<and>
   fst (search_and_convert 10 env1 one_file ''i->t'' input1 target1 600000 router1)
     = Converted one_file chain1 False \<and>
   filter is_download (events (snd (search_and_convert 10 env1 one_file ''i->t'' input1 target1 600000 router1)))
     = [Download [1] ''f'' (Some ''t'')] \<and>
   convert_targets (drop (length (events (snd (buildConvertPath 10 env1 one_file target1 [[input1]] (Some 600000) router1))))
      (events (snd (attemptConvertPath env1 one_file chain1
              ((snd (buildConvertPath 10 env1 one_file target1 [[input1]] (Some 600000) router1))
                 \<lparr>convertPathCache := []\<rparr>)))))
     = map node_pair (tl chain1) \<and>
   list_all (\<lambda>nd. 1 \<le> count_list
        (convert_targets (drop (length (events router1))
           (events (snd (buildConvertPath 10 env1 one_file target1 [[input1]] (Some 600000) router1)))))
        (node_pair nd)) (tl chain1)"
proof -
  let ?X4 = "buildConvertPath 10 env4 one_file target4 [[input4]] (Some 600000) router4"
  let ?Y4 = "attemptConvertPath env4 one_file [input4, option4] ((snd ?X4)\<lparr>convertPathCache := []\<rparr>)"
  have f4: "fst ?X4 = Some (Found one_file [input4, option4])" by code_simp
  then have s4: "?X4 = (Some (Found one_file [input4, option4]), snd ?X4)"
    by (metis prod.collapse)
  have full4: "[input4, option4] = [] \<or>
      mime (node_format (last [input4, option4])) = mime (node_format target4)" by code_simp
  have r4: "fst ?Y4 = None" by code_simp
  have a4: "?Y4 = (None, snd ?Y4)" using r4 by (metis prod.collapse)
  have n4: "search_and_convert 10 env4 one_file ''i->t'' input4 target4 600000 router4
              = (AlertNoRoute, snd ?Y4)"
    using C10_found_chain_is_run_again [OF s4 full4 a4, where key = "''i->t''"] by simp
  let ?X1 = "buildConvertPath 10 env1 one_file target1 [[input1]] (Some 600000) router1"
  let ?Y1 = "attemptConvertPath env1 one_file chain1 ((snd ?X1)\<lparr>convertPathCache := []\<rparr>)"
  have f1: "fst ?X1 = Some (Found one_file chain1)" by code_simp
  then have s1: "?X1 = (Some (Found one_file chain1), snd ?X1)" by (metis prod.collapse)
  have full1: "chain1 = [] \<or> mime (node_format (last chain1)) = mime (node_format target1)"
    by code_simp
  have r1: "fst ?Y1 = Some (one_file, chain1)" by code_simp
  have a1: "?Y1 = (Some (one_file, chain1), snd ?Y1)" using r1 by (metis prod.collapse)
  note w1 = C10_found_chain_is_run_again [OF s1 full1 a1, where key = "''i->t''"]
  have e1: "filter is_download (events router1) = []" by (simp add: router1_def)
  have m1: "mime (node_format target1) = Some ''t''" by (simp add: target1_def mkNode_def mkFormat_def)
  have o1: "map (\<lambda>f. Download (bytes f) (file_name f) (Some ''t'')) one_file = [Download [1] ''f'' (Some ''t'')]"
    by (simp add: one_file_def)
  from w1 have c1: "fst (search_and_convert 10 env1 one_file ''i->t'' input1 target1 600000 router1)
     = Converted one_file chain1 False" by simp
  from w1 have c2: "filter is_download (events (snd (search_and_convert 10 env1 one_file ''i->t'' input1 target1 600000 router1)))
     = [Download [1] ''f'' (Some ''t'')]" by (simp add: e1 m1 o1)
  from w1 have c3: "convert_targets (drop (length (events (snd ?X1))) (events (snd ?Y1)))
     = map node_pair (tl chain1)" by simp
  have ne: "\<forall>nd \<in> set (tl chain1). 1 \<le> count_list (map node_pair (tl chain1)) (node_pair nd)"
    by code_simp
  from w1 have "list_all (\<lambda>nd. count_list (map node_pair (tl chain1)) (node_pair nd)
                          \<le> count_list (convert_targets (drop (length (events router1)) (events (snd ?X1))))
                               (node_pair nd)) (tl chain1)" by simp
  with ne have c4: "list_all (\<lambda>nd. 1 \<le> count_list
        (convert_targets (drop (length (events router1)) (events (snd ?X1)))) (node_pair nd)) (tl chain1)"
    unfolding list_all_iff by (meson order_trans)
  from f4 n4 c1 c2 c3 c4 show ?thesis by (intro conjI)
qed

section \<open>Chains and conversions of a click\<close>

lemma from_mimes_agree_env1: "from_mimes_agree env1 router1"
  by (simp add: from_mimes_agree_def env1_def)

lemma from_mimes_agree_envL: "from_mimes_agree (env_lazy formatsL) routerL"
  by (auto simp: from_mimes_agree_def env_lazy_def routerL_def declares_from_def hl_def mkHandler_def)

lemma adjacent_tl: "adjacent st p \<Longrightarrow> adjacent st (tl p)"
  by (induction st p rule: adjacent.induct) simp_all

lemma adjacent_take: "adjacent st p \<Longrightarrow> adjacent st (take j p)"
proof (induction st p arbitrary: j rule: adjacent.induct)
  case (1 st a b rest)
  show ?case
  proof (cases j)
    case 0
    then show ?thesis by simp
  next
    case (Suc j1)
    from 1 have "adjacent st (take j1 (b # rest))" by simp
    with 1 Suc show ?thesis by (cases j1) simp_all
  qed
qed (simp_all add: take_Cons')

lemma adjacent_declares_cong:
  "declares_from st' = declares_from st \<Longrightarrow> adjacent st' p = adjacent st p"
  by (induction st p rule: adjacent.induct) simp_all

lemma ok_event_cong:
  assumes "declares_from st' = declares_from st"
    and "conversionsFromAnyInput st' = conversionsFromAnyInput st"
  shows "ok_event st' inOpt e = ok_event st inOpt e"
  using assms adjacent_declares_cong[OF assms(1)] by (cases e) simp_all

lemma from_mimes_agree_declares_cong:
  "declares_from st' = declares_from st \<Longrightarrow> from_mimes_agree E st' = from_mimes_agree E st"
  by (simp add: from_mimes_agree_def)

text \<open>
  The chain the search returns was attempted by it, or, when the deadline cut the search
  short, it is made of nodes that follow the first node of an attempted chain.
\<close>

lemma found_chain_ok:
  assumes agree: "from_mimes_agree E st"
    and run: "buildConvertPath n E fls target [[inOpt]] deadlineMs st = (Some (Found out p), st')"
  shows "adjacent st p \<or> (\<exists>c \<in> set (conversionsFromAnyInput st). p = [inOpt, c])"
proof -
  from buildConvertPath_run[OF run] obtain q where
    q: "PathAttempt q \<in> set (drop (length (events st)) (events st'))"
       "p = q \<or> (\<exists>j. p = take j (tl q))" by blast
  from buildConvertPath_ok[OF agree run] obtain evs where
    "events st' = events st @ evs" "\<forall>e \<in> set evs. ok_event st inOpt e" by blast
  with q(1) have "PathAttempt q \<in> set evs" by simp
  with \<open>\<forall>e \<in> set evs. ok_event st inOpt e\<close> have "ok_event st inOpt (PathAttempt q)" by blast
  then have okq: "adjacent st q \<or> (\<exists>c \<in> set (conversionsFromAnyInput st). q = [inOpt, c])" by simp
  from q(2) show ?thesis
  proof
    assume "p = q"
    with okq show ?thesis by simp
  next
    assume "\<exists>j. p = take j (tl q)"
    then obtain j where j: "p = take j (tl q)" by blast
    from okq show ?thesis
    proof
      assume "adjacent st q"
      then have "adjacent st (take j (tl q))" by (intro adjacent_take adjacent_tl)
      with j show ?thesis by simp
    next
      assume "\<exists>c \<in> set (conversionsFromAnyInput st). q = [inOpt, c]"
      then obtain c where "q = [inOpt, c]" by blast
      with j have "p = take j [c]" by simp
      then have "adjacent st p" by (cases j) simp_all
      then show ?thesis by simp
    qed
  qed
qed

lemma download_all_ok:
  "\<forall>e \<in> set (map (\<lambda>f. Download (bytes f) (file_name f) m) fls). ok_event st inOpt e"
  by simp

lemma search_and_convert_ok:
  assumes agree: "from_mimes_agree E st"
    and run: "search_and_convert n E fls key inOpt outOpt deadline st = (u, st')"
  shows "\<exists>evs. events st' = events st @ evs \<and> (\<forall>e \<in> set evs. ok_event st inOpt e)"
proof -
  obtain r st1 where b: "buildConvertPath n E fls outOpt [[inOpt]] (Some deadline) st = (r, st1)"
    by (cases "buildConvertPath n E fls outOpt [[inOpt]] (Some deadline) st")
  from buildConvertPath_ok[OF agree b] obtain evs1 where
    h1: "declares_from st1 = declares_from st" "conversionsFromAnyInput st1 = conversionsFromAnyInput st"
        "events st1 = events st @ evs1" "\<forall>e \<in> set evs1. ok_event st inOpt e" by blast
  show ?thesis
  proof (cases "\<exists>out p. r = Some (Found out p)")
    case False
    with b run have "st' = st1"
      by (cases r) (auto simp: search_and_convert_def split: search_result.splits)
    with h1 show ?thesis by blast
  next
    case True
    then obtain out p where r: "r = Some (Found out p)" by blast
    show ?thesis
    proof (cases "p \<noteq> [] \<and> mime (node_format (last p)) \<noteq> mime (node_format outOpt)")
      case True
      with b r run have "st' = download_all out (mime (node_format (last p))) (storePath key p st1)"
        by (auto simp: search_and_convert_def)
      then have "events st' = events st @ (evs1 @
          map (\<lambda>f. Download (bytes f) (file_name f) (mime (node_format (last p)))) out)"
        using h1(3) by (simp add: download_all_def storePath_def)
      moreover have "\<forall>e \<in> set (evs1 @
          map (\<lambda>f. Download (bytes f) (file_name f) (mime (node_format (last p)))) out).
            ok_event st inOpt e" using h1(4) by auto
      ultimately show ?thesis by blast
    next
      case False
      let ?s = "st1\<lparr>convertPathCache := []\<rparr>"
      obtain r2 st2 where a: "attemptConvertPath E fls p ?s = (r2, st2)"
        by (cases "attemptConvertPath E fls p ?s")
      have same: "declares_from ?s = declares_from st"
        using h1(1) declares_from_cong[of ?s st1] by simp
      from attemptConvertPath_ok[OF agree same a] obtain evs2 where
        h2: "events st2 = events ?s @ evs2" "\<forall>e \<in> set evs2. hop_event st p e" by blast
      from b r have "buildConvertPath n E fls outOpt [[inOpt]] (Some deadline) st = (Some (Found out p), st1)"
        by simp
      from found_chain_ok[OF agree this] h2(2) have ok2: "\<forall>e \<in> set evs2. ok_event st inOpt e"
        by (blast intro: hop_event_ok)
      have "st' = st2 \<or> (\<exists>out2 p2. st' = download_all out2 (mime (node_format outOpt)) (storePath key p2 st2))"
      proof (cases r2)
        case None
        with False b r a run have "st' = st2"
          by (auto simp: search_and_convert_def confirm_and_deliver_def)
        then show ?thesis by simp
      next
        case (Some x)
        obtain out2 p2 where "x = (out2, p2)" by (cases x)
        with Some False b r a run have
          "st' = download_all out2 (mime (node_format outOpt)) (storePath key p2 st2)"
          by (auto simp: search_and_convert_def confirm_and_deliver_def)
        then show ?thesis by blast
      qed
      then show ?thesis
      proof
        assume "st' = st2"
        with h1(3) h2(1) have "events st' = events st @ (evs1 @ evs2)" by simp
        moreover have "\<forall>e \<in> set (evs1 @ evs2). ok_event st inOpt e" using h1(4) ok2 by auto
        ultimately show ?thesis by blast
      next
        assume "\<exists>out2 p2. st' = download_all out2 (mime (node_format outOpt)) (storePath key p2 st2)"
        then obtain out2 p2 where
          "st' = download_all out2 (mime (node_format outOpt)) (storePath key p2 st2)" by blast
        with h1(3) h2(1) have "events st' = events st @ (evs1 @ evs2 @
            map (\<lambda>f. Download (bytes f) (file_name f) (mime (node_format outOpt))) out2)"
          by (simp add: download_all_def storePath_def)
        moreover have "\<forall>e \<in> set (evs1 @ evs2 @
            map (\<lambda>f. Download (bytes f) (file_name f) (mime (node_format outOpt))) out2).
              ok_event st inOpt e" using h1(4) ok2 by auto
        ultimately show ?thesis by blast
      qed
    qed
  qed
qed


text \<open>
  The click handler: the replay of a recalled chain, the search, the confirmation run.
\<close>

lemma recallPath_cong:
  "pathStore st' = pathStore st \<Longrightarrow> allOptions st' = allOptions st \<Longrightarrow>
     recallPath key st' = recallPath key st"
  by (simp add: recallPath_def split: option.splits list.splits)

lemma convertButton_click_ok:
  assumes agree: "from_mimes_agree E st"
    and recalled: "case recallPath (pathStoreKey (mime (node_format inOpt)) (mime (node_format outOpt))
                           (if simpleMode st then None else Some (handler_name (handler outOpt)))) st of
                     None \<Rightarrow> True | Some p \<Rightarrow> adjacent st p"
    and run: "convertButton_click n E fls (Some inOpt) (Some outOpt) st = (u, st')"
  shows "\<exists>evs. events st' = events st @ evs \<and> (\<forall>e \<in> set evs. ok_event st inOpt e)"
proof (cases "fls = []")
  case True
  with run have "st' = st" by (simp add: convertButton_click_def)
  then show ?thesis by simp
next
  case False
  let ?inM = "mime (node_format inOpt)" and ?outM = "mime (node_format outOpt)"
  define key where "key = pathStoreKey ?inM ?outM
       (if simpleMode st then None else Some (handler_name (handler outOpt)))"
  obtain t w0 where clock: "date_now E (world st) = (t, w0)" by (cases "date_now E (world st)")
  define d where "d = t + SEARCH_TIMEOUT_MS"
  define st1 where "st1 = (if ?inM = ?outM then download_all fls ?inM (st\<lparr>world := w0\<rparr>)
                           else st\<lparr>world := w0\<rparr>)"
  define fd where "fd = (if ?inM = ?outM then [] else fls)"
  from False clock run have run1:
    "(case recallPath key st1 of
        None \<Rightarrow> search_and_convert n E fd key inOpt outOpt d st1
      | Some cachedPath \<Rightarrow>
          (case attemptConvertPath E fd cachedPath (st1\<lparr>convertPathCache := []\<rparr>) of
             (Some (out, p), st2) \<Rightarrow> (Converted out p True, download_all out ?outM st2)
           | (None, st2) \<Rightarrow> search_and_convert n E fd key inOpt outOpt d (evictPath key st2))) = (u, st')"
    unfolding convertButton_click_def key_def d_def st1_def fd_def by (simp add: Let_def)
  obtain evs0 where e0: "events st1 = events st @ evs0" "\<forall>e \<in> set evs0. ok_event st inOpt e"
    unfolding st1_def by (cases "?inM = ?outM") (auto simp: download_all_def)
  have fr1: "supportedFormatCache st1 = supportedFormatCache st"
    "conversionsFromAnyInput st1 = conversionsFromAnyInput st"
    "pathStore st1 = pathStore st" "allOptions st1 = allOptions st"
    by (simp_all add: st1_def download_all_def)
  from fr1(1) have d1: "declares_from st1 = declares_from st" by (rule declares_from_cong)
  from fr1(3,4) have rc: "recallPath key st1 = recallPath key st" by (rule recallPath_cong)
  have ag1: "from_mimes_agree E st1" using agree from_mimes_agree_declares_cong[OF d1] by simp
  show ?thesis
  proof (cases "recallPath key st")
    case None
    with rc run1 have sc: "search_and_convert n E fd key inOpt outOpt d st1 = (u, st')" by simp
    from search_and_convert_ok[OF ag1 sc] obtain evs1 where
      "events st' = events st1 @ evs1" "\<forall>e \<in> set evs1. ok_event st1 inOpt e" by blast
    with e0 ok_event_cong[OF d1 fr1(2)] have "events st' = events st @ (evs0 @ evs1)"
      "\<forall>e \<in> set (evs0 @ evs1). ok_event st inOpt e" by auto
    then show ?thesis by blast
  next
    case (Some cp)
    with recalled have adj: "adjacent st cp" by (simp add: key_def)
    let ?s = "st1\<lparr>convertPathCache := []\<rparr>"
    obtain r2 st2 where a: "attemptConvertPath E fd cp ?s = (r2, st2)"
      by (cases "attemptConvertPath E fd cp ?s")
    have same: "declares_from ?s = declares_from st"
      using d1 declares_from_cong[of ?s st1] by simp
    from attemptConvertPath_ok[OF agree same a] obtain evs2 where
      h2: "declares_from st2 = declares_from st" "conversionsFromAnyInput st2 = conversionsFromAnyInput ?s"
          "events st2 = events ?s @ evs2" "\<forall>e \<in> set evs2. hop_event st cp e" by blast
    from adj h2(4) have ok2: "\<forall>e \<in> set evs2. ok_event st inOpt e"
      by (blast intro: hop_event_ok)
    have ev2: "events st2 = events st @ (evs0 @ evs2)" using h2(3) e0(1) by simp
    show ?thesis
    proof (cases r2)
      case None
      let ?s3 = "evictPath key st2"
      from None Some rc a run1 have
        sc: "search_and_convert n E fd key inOpt outOpt d ?s3 = (u, st')" by simp
      have d3: "declares_from ?s3 = declares_from st"
        using h2(1) declares_from_cong[of ?s3 st2] by (simp add: evictPath_def)
      have c3: "conversionsFromAnyInput ?s3 = conversionsFromAnyInput st"
        using h2(2) fr1(2) by (simp add: evictPath_def)
      have ag3: "from_mimes_agree E ?s3" using agree from_mimes_agree_declares_cong[OF d3] by simp
      from search_and_convert_ok[OF ag3 sc] obtain evs3 where
        e3: "events st' = events ?s3 @ evs3" "\<forall>e \<in> set evs3. ok_event ?s3 inOpt e" by blast
      from e3(1) ev2 have "events st' = events st @ (evs0 @ evs2 @ evs3)"
        by (simp add: evictPath_def)
      moreover from e3(2) ok_event_cong[OF d3 c3] e0(2) ok2 have
        "\<forall>e \<in> set (evs0 @ evs2 @ evs3). ok_event st inOpt e" by auto
      ultimately show ?thesis by blast
    next
      case (Some x)
      obtain out p where x: "x = (out, p)" by (cases x)
      with Some \<open>recallPath key st = Some cp\<close> rc a run1 have
        "st' = download_all out ?outM st2" by simp
      with ev2 have "events st' = events st @ (evs0 @ evs2 @
          map (\<lambda>f. Download (bytes f) (file_name f) ?outM) out)" by (simp add: download_all_def)
      moreover have "\<forall>e \<in> set (evs0 @ evs2 @ map (\<lambda>f. Download (bytes f) (file_name f) ?outM) out).
          ok_event st inOpt e" using e0(2) ok2 by auto
      ultimately show ?thesis by blast
    qed
  qed
qed

text \<open>
  Claim C5 as stated fails in three ways. The any-input fallback attempts and returns a
  chain whose last handler declares no readable format with the mime before it. With a
  stale cache.json the search builds the chain from what the cache says: a handler that
  is ready is never asked, and the chain returned has a hop that the format list of the
  handler itself does not declare; a handler that is not ready is initialised by the
  attempt, reads another mime, and the format cache then no longer declares the hop of
  the chain returned. And a chain recalled from the path store is run as stored: the
  chain of the any-input fallback, stored by a first click, comes back at the second
  click as two options of the pool and is run again.
\<close>

theorem C5_not_adjacent_counterexample:
  "(events (snd (buildConvertPath 10 env5 one_file target5 [[input5]] None router5))
      = [PathAttempt [input5, any5], ConvertCall hr one_file None (mkFormat 1 ''t'' False True)] \<and>
    fst (buildConvertPath 10 env5 one_file target5 [[input5]] None router5)
      = Some (Found one_file [input5, any5]) \<and>
    \<not> declares_from router5 (handler any5) (mime (node_format input5)) \<and>
    \<not> list_ex (\<lambda>f. mime f = mime (node_format input5) \<and> from_flag f) [mkFormat 1 ''t'' False True]) \<and>
   (fst (buildConvertPath 10 env_ready_stale one_file targetL [[inputL]] None routerL)
      = Some (Found one_file [inputL, optionL]) \<and>
    supportedFormats env_ready_stale
        (world (snd (buildConvertPath 10 env_ready_stale one_file targetL [[inputL]] None routerL))) hl
      = Some formatsJ \<and>
    \<not> list_ex (\<lambda>f. mime f = mime (node_format inputL) \<and> from_flag f) formatsJ) \<and>
   (fst (buildConvertPath 10 (env_lazy formatsJ) one_file targetL [[inputL]] None routerL)
      = Some (Found one_file [inputL, optionL]) \<and>
    supportedFormats (env_lazy formatsJ)
        (world (snd (buildConvertPath 10 (env_lazy formatsJ) one_file targetL [[inputL]] None routerL))) hl
      = Some formatsJ \<and>
    \<not> list_ex (\<lambda>f. mime f = mime (node_format inputL) \<and> from_flag f) formatsJ \<and>
    \<not> declares_from (snd (buildConvertPath 10 (env_lazy formatsJ) one_file targetL [[inputL]] None routerL))
        (handler optionL) (mime (node_format inputL))) \<and>
   (recallPath ''i->t'' page5 = Some [input5, mkNode 0 hr (mkFormat 1 ''t'' False True)] \<and>
    fst (convertButton_click 10 env5 one_file (Some input5) (Some target5) page5)
      = Converted one_file [input5, mkNode 0 hr (mkFormat 1 ''t'' False True)] True \<and>
    \<not> declares_from page5 hr (mime (node_format input5)))"
  by code_simp

text \<open>
  Claim C5, amended: when the format cache agrees with the handlers, every chain the
  search attempts, started on the queue that holds only the input option, and the chain
  it returns (the one the click handler runs again, or stores when the deadline cut the
  search short) is adjacent with respect to the format cache (the cache entry of every
  node's handler, not the list the handler object holds, declares the mime of the node
  before), or it is the input option followed by a node of conversionsFromAnyInput.
  Nothing is said of a chain recalled from the path store.
\<close>

theorem C5_adjacency_of_search_chains:
  assumes "from_mimes_agree E st"
    and "buildConvertPath n E fls target [[inOpt]] deadlineMs st = (r, st')"
    and "PathAttempt p \<in> set (drop (length (events st)) (events st')) \<or> (\<exists>out. r = Some (Found out p))"
  shows "adjacent st p \<or> (\<exists>c \<in> set (conversionsFromAnyInput st). p = [inOpt, c])"
  using assms(3)
proof
  assume a: "PathAttempt p \<in> set (drop (length (events st)) (events st'))"
  from buildConvertPath_ok[OF assms(1,2)] obtain evs where
    e: "events st' = events st @ evs" and ok: "\<forall>e \<in> set evs. ok_event st inOpt e" by blast
  from a e have "PathAttempt p \<in> set evs" by simp
  with ok have "ok_event st inOpt (PathAttempt p)" by blast
  then show ?thesis by simp
next
  assume "\<exists>out. r = Some (Found out p)"
  then obtain out where "r = Some (Found out p)" by blast
  with assms(2) have "buildConvertPath n E fls target [[inOpt]] deadlineMs st = (Some (Found out p), st')"
    by simp
  from found_chain_ok[OF assms(1) this] show ?thesis .
qed

theorem C5_adjacency_of_search_chains_witness:
  "from_mimes_agree (env_lazy formatsL) routerL \<and>
   InitCall hl True \<in> set (events (snd (buildConvertPath 10 (env_lazy formatsL) one_file targetL
                                           [[inputL]] None routerL))) \<and>
   adjacent routerL [inputL, optionL] \<and>
   declares_from routerL hl (Some ''i'') \<and>
   from_mimes_agree env1 router1 \<and>
   adjacent router1 [input1, mkNode 9 h1 (mkFormat 2 ''a'' False True),
             mkNode 10 h2 (mkFormat 4 ''x'' False True), mkNode 7 h3 (mkFormat 8 ''t'' False True)]"
proof -
  let ?XL = "buildConvertPath 10 (env_lazy formatsL) one_file targetL [[inputL]] None routerL"
  have initL: "InitCall hl True \<in> set (events (snd ?XL))" by code_simp
  have foundL: "PathAttempt [inputL, optionL] \<in> set (drop (length (events routerL)) (events (snd ?XL))) \<or>
                (\<exists>out. fst ?XL = Some (Found out [inputL, optionL]))"
    by (rule disjI2, rule exI[of _ one_file]) code_simp
  have noneL: "conversionsFromAnyInput routerL = []" by (simp add: routerL_def)
  have adjL: "adjacent routerL [inputL, optionL]"
    using C5_adjacency_of_search_chains [OF from_mimes_agree_envL surjective_pairing foundL]
    unfolding noneL by simp
  then have decL: "declares_from routerL hl (Some ''i'')"
    by (simp add: inputL_def optionL_def mkNode_def mkFormat_def)
  let ?p = "[input1, mkNode 9 h1 (mkFormat 2 ''a'' False True),
             mkNode 10 h2 (mkFormat 4 ''x'' False True), mkNode 7 h3 (mkFormat 8 ''t'' False True)]"
  let ?X1 = "buildConvertPath 10 env1 one_file target1 [[input1]] None router1"
  have mem: "PathAttempt ?p \<in> set (drop (length (events router1)) (events (snd ?X1)))"
    by code_simp
  then have mem': "PathAttempt ?p \<in> set (drop (length (events router1)) (events (snd ?X1))) \<or>
                   (\<exists>out. fst ?X1 = Some (Found out ?p))" by (rule disjI1)
  have none: "conversionsFromAnyInput router1 = []" by (simp add: router1_def)
  have adj1: "adjacent router1 ?p"
    using C5_adjacency_of_search_chains [OF from_mimes_agree_env1 surjective_pairing mem']
    unfolding none by simp
  from from_mimes_agree_envL initL adjL decL from_mimes_agree_env1 adj1 show ?thesis by (intro conjI)
qed

text \<open>
  Claim C8 as stated fails in the same three ways: in the hop into an any-input node, in
  a hop of a handler whose cache entry is stale, and in the replay of a recalled chain
  the lookup of the input format finds no entry, and doConvert is called without an
  input format.
\<close>

theorem C8_lookup_finds_nothing_counterexample:
  "(filter is_convert (events (snd (buildConvertPath 10 env5 one_file target5 [[input5]] None router5)))
      = [ConvertCall hr one_file None (mkFormat 1 ''t'' False True)] \<and>
    supportedFormatCache router5 (handler_name hr) = Some [mkFormat 1 ''t'' False True] \<and>
    lookupInput [mkFormat 1 ''t'' False True] (node_format input5) = None) \<and>
   (filter is_convert
      (events (snd (buildConvertPath 10 (env_lazy formatsJ) one_file targetL [[inputL]] None routerL)))
      = [ConvertCall hl one_file None (mkFormat 2 ''t'' False True)] \<and>
    lookupInput formatsJ (node_format inputL) = None) \<and>
   (drop (length (events page5))
      (events (snd (convertButton_click 10 env5 one_file (Some input5) (Some target5) page5)))
      = [ConvertCall hr one_file None (mkFormat 1 ''t'' False True), Download [1] ''f'' (Some ''t'')])"
  by code_simp

text \<open>
  Claim C8, amended: when the format cache agrees with the handlers and the chain
  recalled from the path store for this click, if there is one, is adjacent, every
  conversion a click on convert runs (in the replay of the recalled chain, in the
  search, in the confirmation run) is called with an input format the lookup found, a
  readable one, except for the hop into a node of conversionsFromAnyInput.
\<close>

theorem C8_input_format_lookup:
  assumes "from_mimes_agree E st"
    and "case recallPath (pathStoreKey (mime (node_format inOpt)) (mime (node_format outOpt))
                 (if simpleMode st then None else Some (handler_name (handler outOpt)))) st of
           None \<Rightarrow> True | Some p \<Rightarrow> adjacent st p"
    and "convertButton_click n E fls (Some inOpt) (Some outOpt) st = (u, st')"
    and "ConvertCall h files_in inF outF \<in> set (drop (length (events st)) (events st'))"
  shows "(\<exists>f. inF = Some f \<and> from_flag f) \<or>
         (\<exists>c \<in> set (conversionsFromAnyInput st). h = handler c \<and> outF = node_format c)"
proof -
  from convertButton_click_ok[OF assms(1-3)] obtain evs where
    e: "events st' = events st @ evs" and ok: "\<forall>e \<in> set evs. ok_event st inOpt e" by blast
  from assms(4) e have "ConvertCall h files_in inF outF \<in> set evs" by simp
  with ok have "ok_event st inOpt (ConvertCall h files_in inF outF)" by blast
  then show ?thesis by simp
qed

theorem C8_input_format_lookup_witness:
  "from_mimes_agree (env_lazy formatsL) routerL \<and>
   recallPath ''i->t'' routerL = None \<and>
   recallPath ''i->t'' routerLs = Some [inputL, optionL] \<and>
   filter is_convert (events (snd (convertButton_click 10 (env_lazy formatsL) one_file
                                     (Some inputL) (Some targetL) routerLs)))
     = [ConvertCall hl one_file (lookupInput formatsL (node_format inputL)) (mkFormat 2 ''t'' False True)] \<and>
   (\<exists>f. lookupInput formatsL (node_format inputL) = Some f \<and> from_flag f) \<and>
   lookupInput formatsL (node_format inputL) \<noteq> None"
proof -
  let ?E = "env_lazy formatsL"
  let ?key = "\<lambda>st. pathStoreKey (mime (node_format inputL)) (mime (node_format targetL))
                 (if simpleMode st then None else Some (handler_name (handler targetL)))"
  have k: "?key routerL = ''i->t''" "?key routerLs = ''i->t''" by code_simp+
  have cold: "recallPath ''i->t'' routerL = None" by code_simp
  have warm: "recallPath ''i->t'' routerLs = Some [inputL, optionL]" by code_simp
  have agreeS: "from_mimes_agree ?E routerLs"
    using from_mimes_agree_envL from_mimes_agree_cong[of routerLs routerL ?E]
    by (simp add: routerLs_def)
  have r1: "case recallPath (?key routerL) routerL of None \<Rightarrow> True | Some p \<Rightarrow> adjacent routerL p"
    unfolding k cold by simp
  have adj: "adjacent routerLs [inputL, optionL]" by code_simp
  have r2: "case recallPath (?key routerLs) routerLs of None \<Rightarrow> True | Some p \<Rightarrow> adjacent routerLs p"
    unfolding k warm using adj by simp
  let ?c = "ConvertCall hl one_file (lookupInput formatsL (node_format inputL)) (mkFormat 2 ''t'' False True)"
  have m1: "?c \<in> set (drop (length (events routerL))
              (events (snd (convertButton_click 10 ?E one_file (Some inputL) (Some targetL) routerL))))"
    by code_simp
  have calls: "filter is_convert (events (snd (convertButton_click 10 ?E one_file
                                     (Some inputL) (Some targetL) routerLs))) = [?c]"
    by code_simp
  have m2: "?c \<in> set (drop (length (events routerLs))
              (events (snd (convertButton_click 10 ?E one_file (Some inputL) (Some targetL) routerLs))))"
    by code_simp
  have none: "conversionsFromAnyInput routerL = []" "conversionsFromAnyInput routerLs = []"
    by (simp_all add: routerL_def routerLs_def)
  have f1: "\<exists>f. lookupInput formatsL (node_format inputL) = Some f \<and> from_flag f"
    using C8_input_format_lookup [OF from_mimes_agree_envL r1 surjective_pairing m1]
    unfolding none by simp
  have f2: "\<exists>f. lookupInput formatsL (node_format inputL) = Some f \<and> from_flag f"
    using C8_input_format_lookup [OF agreeS r2 surjective_pairing m2]
    unfolding none by simp
  from f1 have f1': "lookupInput formatsL (node_format inputL) \<noteq> None" by auto
  from from_mimes_agree_envL cold warm calls f2 f1' show ?thesis by (intro conjI)
qed

section \<open>How often init is called\<close>

text \<open>
  Claim C6 says that over the life of the page at most one init call of a handler
  resolves. buildOptionList calls init when the format cache has no entry for the
  handler and writes the entry only after the init has settled; the executor calls it
  when the handler is not ready. On a page that starts without cache.json, a click on
  the mode toggle while the first run of buildOptionList awaits the init of a handler
  starts a second run, which finds no entry either and calls init again: both calls
  resolve, although the handler is ready once the first has settled. And a handler
  object without a \<^verbatim>\<open>ready\<close> property, as the handler modules of the repository
  export it, is initialised before every hop: after the first buildOptionList and one
  click on convert its init has resolved three times. When the click on the mode toggle
  comes after the first run has ended, the init of the first handler is called once.
\<close>

theorem C6_init_resolves_more_than_once:
  "init_results hl (events (router page_overlap)) = [True, True] \<and>
   builds page_overlap = [] \<and>
   init_results hl (events (router (page_run (env_lazy formatsL) [CacheLoaded None, InitSettled 0, ModeClick]
                                      (page_init (env_lazy formatsL) 0 (\<lambda>k. None))))) = [True] \<and>
   ready (env_lazy formatsL)
     (world (router (page_run (env_lazy formatsL) [CacheLoaded None, ModeClick, InitSettled 0]
                       (page_init (env_lazy formatsL) 0 (\<lambda>k. None))))) hl \<and>
   init_results hd4 (events page6) = [True, True, True]"
  by code_simp

end
